theory Spec2Isabelle
  imports Main "HOL-Library.Word"
begin

unbundle bit_operations_syntax

section \<open>Kaleidoscope-Qukeys: two keycodes on one key\<close>

text \<open>
  The repository holds two revisions of the plugin's implementation file.
  \<^item> \<^verbatim>\<open>src/Kaleidoscope/Qukeys.cpp\<close>: the hook is \<^verbatim>\<open>keyScanHook\<close>, every registry entry
    carries its own three-valued \<^verbatim>\<open>state\<close>. Its functions keep their names here.
  \<^item> the second implementation file: the hook is \<^verbatim>\<open>eventHandlerHook\<close>, keys are masked
    while queued, the resolution is a \<^verbatim>\<open>bool\<close> kept by \<^verbatim>\<open>setQukeyState\<close>. Its functions
    carry the suffix \<open>_p1\<close> where the name is taken by the first file.
  What both files share (the queue array, \<^verbatim>\<open>searchQueue\<close>, the loop that shifts the queue)
  is defined once, on the fields both states have.
\<close>

subsection \<open>Keys, addresses and keyswitch states\<close>

type_synonym byte = "8 word"
type_synonym KeyAddr = "8 word"
type_synonym Key = "16 word"

text \<open>
  The Kaleidoscope core supplies \<^verbatim>\<open>Key_NoKey\<close> and the keyswitch-state bits with their
  macros: a key state is a byte, bit 1 says the switch is pressed now, bit 0 that it was
  pressed in the previous scan, bit 7 that the event was injected by a plugin.
\<close>

definition Key_NoKey :: Key where
  "Key_NoKey = 0"

definition WAS_PRESSED :: byte where
  "WAS_PRESSED = 1"

definition IS_PRESSED :: byte where
  "IS_PRESSED = 2"

definition INJECTED :: byte where
  "INJECTED = 128"

definition keyIsPressed :: "byte \<Rightarrow> bool" where
  "keyIsPressed keyState \<longleftrightarrow> keyState AND IS_PRESSED \<noteq> 0"

definition keyWasPressed :: "byte \<Rightarrow> bool" where
  "keyWasPressed keyState \<longleftrightarrow> keyState AND WAS_PRESSED \<noteq> 0"

definition keyToggledOn :: "byte \<Rightarrow> bool" where
  "keyToggledOn keyState \<longleftrightarrow> keyIsPressed keyState \<and> \<not> keyWasPressed keyState"

definition keyToggledOff :: "byte \<Rightarrow> bool" where
  "keyToggledOff keyState \<longleftrightarrow> keyWasPressed keyState \<and> \<not> keyIsPressed keyState"

text \<open>
  Modelled from the spec: the header \<^verbatim>\<open>Kaleidoscope-Qukeys.h\<close> is not among the sources.
  It declares the sentinel address (``a reserved sentinel value means unknown/none''),
  the layer wildcard (``a wildcard meaning all layers''), the ``not found'' result of the
  two searches, and the struct of a queue entry (``address, deadline'', the deadline being
  a reading of the millisecond clock plus the timeout, hence 32 bits wide as
  \<^verbatim>\<open>current_time\<close> is). A search result is an \<open>option\<close>: \<open>None\<close> is
  \<^verbatim>\<open>QUKEY_NOT_FOUND\<close>. The spec gives no values; the sentinel is taken as the last
  address and the wildcard as a layer number below every active layer, and nothing
  proved below depends on the choice.
\<close>

definition QUKEY_UNKNOWN_ADDR :: KeyAddr where
  "QUKEY_UNKNOWN_ADDR = 255"

definition QUKEY_ALL_LAYERS :: int where
  "QUKEY_ALL_LAYERS = - 1"

record QueueItem =
  addr :: KeyAddr
  flush_time :: "32 word"

subsection \<open>The world outside the plugin\<close>

text \<open>
  Calls that leave the plugin are recorded, in order, as effects: masking in the key
  scanner, the three \<^verbatim>\<open>memcpy\<close>s on the keyboard report, the re-entrant
  \<^verbatim>\<open>handleKeyswitchEvent\<close>, and the sending of a report. What the plugin reads from
  outside (the keymap, the active layer, the clock) may depend on everything it has
  done so far, an injected key may switch layers, so each reader takes the
  effects recorded up to the moment of the call. An injected event comes back to the
  plugin's own hook, which hands it on and leaves the state alone (C6), so
  \<^verbatim>\<open>handleKeyswitchEvent\<close> is an effect and no step of the plugin.
\<close>

datatype effect =
    unMaskKey KeyAddr
  | maskKey KeyAddr
  | save_keyReport
  | load_lastKeyReport
  | handleKeyswitchEvent_rc Key byte byte byte
  | handleKeyswitchEvent Key KeyAddr byte
  | sendKeyboardReport
  | restore_keyReport

record env =
  addr_addr :: "byte \<Rightarrow> byte \<Rightarrow> KeyAddr"
  addr_row :: "KeyAddr \<Rightarrow> byte"
  addr_col :: "KeyAddr \<Rightarrow> byte"
  Layer_lookup_rc :: "effect list \<Rightarrow> byte \<Rightarrow> byte \<Rightarrow> Key"
  Layer_lookupActiveLayer_rc :: "effect list \<Rightarrow> byte \<Rightarrow> byte \<Rightarrow> int"
  Layer_lookup :: "effect list \<Rightarrow> KeyAddr \<Rightarrow> Key"
  Layer_lookupActiveLayer :: "effect list \<Rightarrow> KeyAddr \<Rightarrow> int"
  millis :: "effect list \<Rightarrow> 32 word"

subsection \<open>The state both revisions share\<close>

text \<open>
  The static members of the class lose the underscore that ends their names in the
  source (such names are reserved here). \<open>key_queue\<close> holds the
  \<^verbatim>\<open>QUKEYS_QUEUE_MAX\<close> declared slots of the array, so the capacity is the length of
  that list; \<open>past_key_queue\<close> is what the memory right behind the array reads as.
  \<open>key_queue_length\<close> is a \<^verbatim>\<open>uint8_t\<close>, a \<open>nat\<close> here with the wrap-around of
  \<^verbatim>\<open>++\<close> and \<^verbatim>\<open>--\<close> written out. Writes into the array are list updates, which
  agree with the source as long as the index is below the capacity (\<open>queue_ok\<close>).

  Two history variables are kept beside the program's own: \<open>shift_reads\<close> lists the
  indices of \<open>key_queue\<close> read by the shifting loop, and the list of calls of
  \<^verbatim>\<open>flushKey\<close> (in the extensions below) records each call's head entry and arguments.
\<close>

record engine =
  active :: bool
  time_limit :: "16 word"
  key_queue :: "QueueItem list"
  past_key_queue :: QueueItem
  key_queue_length :: nat
  effects :: "effect list"
  shift_reads :: "nat list"

record 'r flush_call =
  fc_item :: QueueItem
  fc_role :: 'r
  fc_keyswitch :: byte

definition QUKEYS_QUEUE_MAX :: "'a engine_scheme \<Rightarrow> nat" where
  "QUKEYS_QUEUE_MAX s = length (key_queue s)"

text \<open>Reading slot \<open>i\<close> of the array: a declared slot, or the memory behind the array.\<close>

definition slot :: "QueueItem list \<Rightarrow> QueueItem \<Rightarrow> nat \<Rightarrow> QueueItem" where
  "slot q past i = (if i < length q then q ! i else past)"

text \<open>The entries waiting for their resolution, oldest first.\<close>

definition pending :: "'a engine_scheme \<Rightarrow> QueueItem list" where
  "pending s = take (key_queue_length s) (key_queue s)"

text \<open>
  The loop \<^verbatim>\<open>for (byte i = 0; i < n; i++) key_queue[i] = key_queue[i + 1];\<close>
  on the array and the list of indices read; \<open>n\<close> is the queue length.
\<close>

function shift_loop ::
  "nat \<Rightarrow> nat \<Rightarrow> QueueItem \<Rightarrow> QueueItem list \<times> nat list \<Rightarrow> QueueItem list \<times> nat list" where
  "shift_loop i n past (q, reads) =
     (if i < n
      then shift_loop (i + 1) n past (q[i := slot q past (i + 1)], reads @ [i + 1])
      else (q, reads))"
  by pat_completeness auto
termination
  by (relation "measure (\<lambda>(i, n, past, qr). n - i)") auto

declare shift_loop.simps [simp del]

text \<open>
  The end of \<^verbatim>\<open>flushKey\<close> in both files: the shifting loop, then the decrement of
  the length (on a \<^verbatim>\<open>uint8_t\<close>: 0 becomes 255).
\<close>

definition shift_queue :: "'a engine_scheme \<Rightarrow> 'a engine_scheme" where
  "shift_queue s =
     (let done = shift_loop 0 (key_queue_length s) (past_key_queue s)
                   (key_queue s, shift_reads s)
      in s\<lparr>key_queue := fst done, shift_reads := snd done,
            key_queue_length := (if key_queue_length s = 0 then 255 else key_queue_length s - 1)\<rparr>)"

text \<open>\<^verbatim>\<open>searchQueue\<close>, the same in both files: the first position holding the address.\<close>

function searchQueue_from :: "'a engine_scheme \<Rightarrow> KeyAddr \<Rightarrow> nat \<Rightarrow> nat option" where
  "searchQueue_from s key_addr i =
     (if i < key_queue_length s
      then (if QueueItem.addr (slot (key_queue s) (past_key_queue s) i) = key_addr
            then Some i else searchQueue_from s key_addr (i + 1))
      else None)"
  by pat_completeness auto
termination
  by (relation "measure (\<lambda>(s, key_addr, i). key_queue_length s - i)") auto

declare searchQueue_from.simps [simp del]

definition searchQueue :: "'a engine_scheme \<Rightarrow> KeyAddr \<Rightarrow> nat option" where
  "searchQueue s key_addr = searchQueue_from s key_addr 0"

text \<open>
  The states the plugin keeps to: the array has a slot, every index fits the
  \<^verbatim>\<open>int8_t\<close> that the searches count in, and the length is within the array.
\<close>

definition queue_ok :: "'a engine_scheme \<Rightarrow> bool" where
  "queue_ok s \<longleftrightarrow>
     0 < QUKEYS_QUEUE_MAX s \<and> QUKEYS_QUEUE_MAX s \<le> 127 \<and> key_queue_length s \<le> QUKEYS_QUEUE_MAX s"

subsection \<open>\<^verbatim>\<open>src/Kaleidoscope/Qukeys.cpp\<close>\<close>

datatype qukey_state = QUKEY_STATE_UNDETERMINED | QUKEY_STATE_PRIMARY | QUKEY_STATE_ALTERNATE

record Qukey =
  layer :: int
  addr :: KeyAddr
  alt_keycode :: Key
  state :: qukey_state

text \<open>
  \<open>qukeys\<close> is the registered array, \<open>qukeys_count\<close> its length (the registration
  macro of the header sets both). The source counts through it with an \<^verbatim>\<open>int8_t\<close>; the
  search below agrees with it for a registry of at most 127 bindings. A layer is an
  \<^verbatim>\<open>int8_t\<close> in a binding and a \<^verbatim>\<open>uint8_t\<close> where the active layer is looked up; both
  are integers here, compared as C compares them after promotion.
\<close>

record Qukeys = engine +
  qukeys :: "Qukey list"
  flush_calls :: "qukey_state flush_call list"

definition qukeys_count :: "Qukeys \<Rightarrow> nat" where
  "qukeys_count s = length (qukeys s)"

function lookupQukey_from :: "env \<Rightarrow> Qukeys \<Rightarrow> KeyAddr \<Rightarrow> nat \<Rightarrow> nat option" where
  "lookupQukey_from E s key_addr i =
     (if i < qukeys_count s
      then (if Qukey.addr (qukeys s ! i) = key_addr \<and>
               (let row = addr_row E key_addr; col = addr_col E key_addr
                in layer (qukeys s ! i) = QUKEY_ALL_LAYERS \<or>
                   layer (qukeys s ! i) = Layer_lookupActiveLayer_rc E (effects s) row col)
            then Some i
            else lookupQukey_from E s key_addr (i + 1))
      else None)"
  by pat_completeness auto
termination
  by (relation "measure (\<lambda>(E, s, key_addr, i). qukeys_count s - i)") auto

declare lookupQukey_from.simps [simp del]

definition lookupQukey :: "env \<Rightarrow> Qukeys \<Rightarrow> KeyAddr \<Rightarrow> nat option" where
  "lookupQukey E s key_addr =
     (if key_addr = QUKEY_UNKNOWN_ADDR then None else lookupQukey_from E s key_addr 0)"

text \<open>
  \<^verbatim>\<open>flushKey\<close> resolves the head of the queue. The source names its first parameter
  \<^verbatim>\<open>state\<close> and reads \<^verbatim>\<open>qukey_state\<close> in the body; they are the same argument here.
  The \<^verbatim>\<open>switch\<close> has no case for the undetermined state, which leaves \<^verbatim>\<open>Key_NoKey\<close>.
\<close>

definition set_state :: "nat \<Rightarrow> qukey_state \<Rightarrow> Qukeys \<Rightarrow> Qukeys" where
  "set_state i st s = s\<lparr>qukeys := (qukeys s)[i := (qukeys s ! i)\<lparr>state := st\<rparr>]\<rparr>"

definition flushKey :: "env \<Rightarrow> qukey_state \<Rightarrow> byte \<Rightarrow> Qukeys \<Rightarrow> Qukeys" where
  "flushKey E qukey_state keyswitch_state s =
     (let head = slot (key_queue s) (past_key_queue s) 0;
          qukey_index = lookupQukey E s (QueueItem.addr head);
          row = addr_row E (QueueItem.addr head);
          col = addr_col E (QueueItem.addr head);
          keycode =
            (case qukey_index of
               None \<Rightarrow> Layer_lookup_rc E (effects s) row col
             | Some i \<Rightarrow>
                 (case qukey_state of
                    QUKEY_STATE_PRIMARY \<Rightarrow> Layer_lookup_rc E (effects s) row col
                  | QUKEY_STATE_ALTERNATE \<Rightarrow> alt_keycode (qukeys s ! i)
                  | QUKEY_STATE_UNDETERMINED \<Rightarrow> Key_NoKey));
          s1 = (case qukey_index of None \<Rightarrow> s | Some i \<Rightarrow> set_state i qukey_state s);
          s2 = s1\<lparr>effects := effects s1 @
                     [save_keyReport, load_lastKeyReport,
                      handleKeyswitchEvent_rc keycode row col (IS_PRESSED OR INJECTED),
                      sendKeyboardReport, restore_keyReport],
                   flush_calls := flush_calls s1 @
                     [\<lparr>fc_item = head, fc_role = qukey_state, fc_keyswitch = keyswitch_state\<rparr>]\<rparr>;
          s3 = shift_queue s2
      in (case qukey_index of
            None \<Rightarrow> s3
          | Some i \<Rightarrow>
              if keyswitch_state AND IS_PRESSED = 0
              then set_state i QUKEY_STATE_UNDETERMINED s3 else s3))"

definition enqueue :: "env \<Rightarrow> KeyAddr \<Rightarrow> Qukeys \<Rightarrow> Qukeys" where
  "enqueue E key_addr s =
     (let s1 = (if key_queue_length s = QUKEYS_QUEUE_MAX s
                then flushKey E QUKEY_STATE_PRIMARY (IS_PRESSED OR WAS_PRESSED) s else s);
          n = key_queue_length s1;
          item = \<lparr>QueueItem.addr = key_addr,
                  flush_time = millis E (effects s1) + ucast (time_limit s1)\<rparr>
      in s1\<lparr>key_queue := (key_queue s1)[n := item],
             key_queue_length := (n + 1) mod 256\<rparr>)"

text \<open>
  \<^verbatim>\<open>flushQueue(index)\<close>: the loop runs \<open>index\<close> times unless the queue runs empty, then
  the released key itself is flushed.
\<close>

fun flushQueue_loop :: "env \<Rightarrow> nat \<Rightarrow> Qukeys \<Rightarrow> Qukeys" where
  "flushQueue_loop E 0 s = s"
| "flushQueue_loop E (Suc k) s =
     (if key_queue_length s = 0 then s
      else flushQueue_loop E k
             (flushKey E QUKEY_STATE_ALTERNATE (IS_PRESSED OR WAS_PRESSED) s))"

definition flushQueue :: "env \<Rightarrow> nat option \<Rightarrow> Qukeys \<Rightarrow> Qukeys" where
  "flushQueue E index s =
     (case index of
        None \<Rightarrow> s
      | Some k \<Rightarrow> flushKey E QUKEY_STATE_PRIMARY WAS_PRESSED (flushQueue_loop E k s))"

text \<open>
  \<^verbatim>\<open>keyScanHook\<close> returns the key for the next plugin. The one \<^verbatim>\<open>return\<close> inside the block
  for a key that was just pressed (queue empty, no qukey) is tested first; every other
  press is enqueued and goes on, with the keys that were not just pressed, to the search
  of the queue.
\<close>

definition keyScanHook :: "env \<Rightarrow> Key \<Rightarrow> byte \<Rightarrow> byte \<Rightarrow> byte \<Rightarrow> Qukeys \<Rightarrow> Key \<times> Qukeys" where
  "keyScanHook E mapped_key row col key_state s =
     (if \<not> active s then (mapped_key, s)
      else if key_state AND INJECTED \<noteq> 0 then (mapped_key, s)
      else if \<not> keyIsPressed key_state \<and> \<not> keyWasPressed key_state then (mapped_key, s)
      else
        let key_addr = addr_addr E row col;
            qukey_index = lookupQukey E s key_addr
        in if keyToggledOn key_state \<and> key_queue_length s = 0 \<and> qukey_index = None
           then (mapped_key, s)
           else
             let s1 = (if keyToggledOn key_state then enqueue E key_addr s else s);
                 queue_index = searchQueue s1 key_addr
             in if keyToggledOff key_state
                then (case queue_index of
                        None \<Rightarrow>
                          (mapped_key,
                           case qukey_index of
                             None \<Rightarrow> s1
                           | Some i \<Rightarrow> set_state i QUKEY_STATE_UNDETERMINED s1)
                      | Some k \<Rightarrow> (mapped_key, flushQueue E queue_index s1))
                else (case qukey_index of
                        None \<Rightarrow>
                          (case queue_index of
                             None \<Rightarrow> (mapped_key, s1)
                           | Some k \<Rightarrow> (Key_NoKey, s1))
                      | Some i \<Rightarrow>
                          if state (qukeys s1 ! i) = QUKEY_STATE_PRIMARY
                          then (mapped_key, s1)
                          else if state (qukeys s1 ! i) = QUKEY_STATE_ALTERNATE
                          then (alt_keycode (qukeys s1 ! i), s1)
                          else (Key_NoKey, s1)))"

lemma shift_queue_length [simp]:
  "key_queue_length (shift_queue s) =
     (if key_queue_length s = 0 then 255 else key_queue_length s - 1)"
  by (simp add: shift_queue_def Let_def)

lemma set_state_length [simp]: "key_queue_length (set_state i st s) = key_queue_length s"
  by (simp add: set_state_def)

lemma flushKey_length:
  "key_queue_length (flushKey E r k s) =
     (if key_queue_length s = 0 then 255 else key_queue_length s - 1)"
  by (simp add: flushKey_def Let_def split: option.splits)

text \<open>
  \<^verbatim>\<open>preReportHook\<close>: the clock is read once; the loop index \<open>i\<close> advances while
  \<^verbatim>\<open>flushKey\<close> shortens the queue.
\<close>

function preReportHook_loop :: "env \<Rightarrow> 32 word \<Rightarrow> nat \<Rightarrow> Qukeys \<Rightarrow> Qukeys" where
  "preReportHook_loop E current_time i s =
     (if i < key_queue_length s
      then (if flush_time (slot (key_queue s) (past_key_queue s) i) < current_time
            then preReportHook_loop E current_time (i + 1)
                   (flushKey E QUKEY_STATE_ALTERNATE (IS_PRESSED OR WAS_PRESSED) s)
            else s)
      else s)"
  by pat_completeness auto
termination
  by (relation "measure (\<lambda>(E, current_time, i, s). key_queue_length s - i)")
     (simp_all add: flushKey_length)

declare preReportHook_loop.simps [simp del]

definition preReportHook :: "env \<Rightarrow> Qukeys \<Rightarrow> Qukeys" where
  "preReportHook E s = preReportHook_loop E (millis E (effects s)) 0 s"

subsection \<open>The second implementation file (\<^verbatim>\<open>eventHandlerHook\<close>)\<close>

text \<open>
  Modelled from the spec: \<^verbatim>\<open>setQukeyState\<close>, \<^verbatim>\<open>getQukeyState\<close> and the two values of
  a resolution are declared in the absent header. The file passes the resolution as a
  \<^verbatim>\<open>bool\<close> and stores it under the key's address (``the resolved state is written into
  the state store''); the store keeps one value per address, \<open>set\<close> writes it and
  \<open>get\<close> reads it back. A binding is the record of the first file; its \<open>state\<close> is
  neither read nor written here.
\<close>

definition QUKEY_STATE_PRIMARY_p1 :: bool where
  "QUKEY_STATE_PRIMARY_p1 = False"

definition QUKEY_STATE_ALTERNATE_p1 :: bool where
  "QUKEY_STATE_ALTERNATE_p1 = True"

record Qukeys_p1 = engine +
  qukeys_p1 :: "Qukey list"
  qukey_state_p1 :: "KeyAddr \<Rightarrow> bool"
  flush_calls_p1 :: "bool flush_call list"

definition qukeys_count_p1 :: "Qukeys_p1 \<Rightarrow> nat" where
  "qukeys_count_p1 s = length (qukeys_p1 s)"

definition setQukeyState :: "KeyAddr \<Rightarrow> bool \<Rightarrow> Qukeys_p1 \<Rightarrow> Qukeys_p1" where
  "setQukeyState key_addr qukey_state s =
     s\<lparr>qukey_state_p1 := (qukey_state_p1 s)(key_addr := qukey_state)\<rparr>"

definition getQukeyState :: "KeyAddr \<Rightarrow> Qukeys_p1 \<Rightarrow> bool" where
  "getQukeyState key_addr s = qukey_state_p1 s key_addr"

function lookupQukey_from_p1 :: "env \<Rightarrow> Qukeys_p1 \<Rightarrow> KeyAddr \<Rightarrow> nat \<Rightarrow> nat option" where
  "lookupQukey_from_p1 E s key_addr i =
     (if i < qukeys_count_p1 s
      then (if Qukey.addr (qukeys_p1 s ! i) = key_addr \<and>
               (layer (qukeys_p1 s ! i) = QUKEY_ALL_LAYERS \<or>
                layer (qukeys_p1 s ! i) = Layer_lookupActiveLayer E (effects s) key_addr)
            then Some i
            else lookupQukey_from_p1 E s key_addr (i + 1))
      else None)"
  by pat_completeness auto
termination
  by (relation "measure (\<lambda>(E, s, key_addr, i). qukeys_count_p1 s - i)") auto

declare lookupQukey_from_p1.simps [simp del]

definition lookupQukey_p1 :: "env \<Rightarrow> Qukeys_p1 \<Rightarrow> KeyAddr \<Rightarrow> nat option" where
  "lookupQukey_p1 E s key_addr =
     (if key_addr = QUKEY_UNKNOWN_ADDR then None else lookupQukey_from_p1 E s key_addr 0)"

definition flushKey_p1 :: "env \<Rightarrow> bool \<Rightarrow> byte \<Rightarrow> Qukeys_p1 \<Rightarrow> Qukeys_p1" where
  "flushKey_p1 E qukey_state keyswitch_state s =
     (let head = slot (key_queue s) (past_key_queue s) 0;
          s1 = s\<lparr>effects := effects s @ [unMaskKey (QueueItem.addr head)]\<rparr>;
          qukey_index = lookupQukey_p1 E s1 (QueueItem.addr head);
          s2 = (if qukey_index \<noteq> None
                then setQukeyState (QueueItem.addr head) qukey_state s1 else s1);
          keycode =
            (if qukey_state = QUKEY_STATE_ALTERNATE_p1 \<and> qukey_index \<noteq> None
             then alt_keycode (qukeys_p1 s2 ! the qukey_index)
             else Layer_lookup E (effects s2) (QueueItem.addr head));
          s3 = s2\<lparr>effects := effects s2 @
                     [save_keyReport, load_lastKeyReport,
                      handleKeyswitchEvent keycode (QueueItem.addr head) (IS_PRESSED OR INJECTED),
                      sendKeyboardReport, restore_keyReport]\<rparr>;
          s4 = (if \<not> keyToggledOn keyswitch_state
                then s3\<lparr>effects := effects s3 @
                          [handleKeyswitchEvent keycode (QueueItem.addr head)
                             (IS_PRESSED OR WAS_PRESSED OR INJECTED)]\<rparr>
                else s3);
          s5 = s4\<lparr>flush_calls_p1 := flush_calls_p1 s4 @
                     [\<lparr>fc_item = head, fc_role = qukey_state, fc_keyswitch = keyswitch_state\<rparr>]\<rparr>
      in shift_queue s5)"

lemma flushKey_p1_length:
  "key_queue_length (flushKey_p1 E r k s) =
     (if key_queue_length s = 0 then 255 else key_queue_length s - 1)"
  by (simp add: flushKey_p1_def setQukeyState_def Let_def)

text \<open>\<^verbatim>\<open>flushQueue(index)\<close> of the second file, written as in the first.\<close>

fun flushQueue_loop_p1 :: "env \<Rightarrow> nat \<Rightarrow> Qukeys_p1 \<Rightarrow> Qukeys_p1" where
  "flushQueue_loop_p1 E 0 s = s"
| "flushQueue_loop_p1 E (Suc k) s =
     (if key_queue_length s = 0 then s
      else flushQueue_loop_p1 E k
             (flushKey_p1 E QUKEY_STATE_ALTERNATE_p1 (IS_PRESSED OR WAS_PRESSED) s))"

definition flushQueue_p1 :: "env \<Rightarrow> nat option \<Rightarrow> Qukeys_p1 \<Rightarrow> Qukeys_p1" where
  "flushQueue_p1 E index s =
     (case index of
        None \<Rightarrow> s
      | Some k \<Rightarrow> flushKey_p1 E QUKEY_STATE_PRIMARY_p1 WAS_PRESSED (flushQueue_loop_p1 E k s))"

text \<open>\<^verbatim>\<open>flushQueue(void)\<close>: flush the keys that are no qukeys from the front of the queue.\<close>

function flushQueue_void_p1 :: "env \<Rightarrow> Qukeys_p1 \<Rightarrow> Qukeys_p1" where
  "flushQueue_void_p1 E s =
     (if 0 < key_queue_length s \<and>
         lookupQukey_p1 E s (QueueItem.addr (slot (key_queue s) (past_key_queue s) 0)) = None
      then flushQueue_void_p1 E
             (flushKey_p1 E QUKEY_STATE_PRIMARY_p1 (IS_PRESSED OR WAS_PRESSED) s)
      else s)"
  by pat_completeness auto
termination
  by (relation "measure (\<lambda>(E, s). key_queue_length s)") (simp_all add: flushKey_p1_length)

declare flushQueue_void_p1.simps [simp del]

definition enqueue_p1 :: "env \<Rightarrow> KeyAddr \<Rightarrow> Qukeys_p1 \<Rightarrow> Qukeys_p1" where
  "enqueue_p1 E key_addr s =
     (let s1 = (if key_queue_length s = QUKEYS_QUEUE_MAX s
                then flushQueue_void_p1 E
                       (flushKey_p1 E QUKEY_STATE_PRIMARY_p1 (IS_PRESSED OR WAS_PRESSED) s)
                else s);
          n = key_queue_length s1;
          item = \<lparr>QueueItem.addr = key_addr,
                  flush_time = millis E (effects s1) + ucast (time_limit s1)\<rparr>
      in s1\<lparr>key_queue := (key_queue s1)[n := item],
             key_queue_length := (n + 1) mod 256,
             effects := effects s1 @ [maskKey key_addr]\<rparr>)"

text \<open>
  \<^verbatim>\<open>eventHandlerHook\<close> takes \<^verbatim>\<open>mapped_key\<close> by value and returns a \<^verbatim>\<open>bool\<close>; the
  result here is that \<^verbatim>\<open>bool\<close>, the value \<^verbatim>\<open>mapped_key\<close> holds at the return, and
  the state. The event carries the key state and the address.
\<close>

definition eventHandlerHook ::
  "env \<Rightarrow> Key \<Rightarrow> byte \<Rightarrow> KeyAddr \<Rightarrow> Qukeys_p1 \<Rightarrow> bool \<times> Key \<times> Qukeys_p1" where
  "eventHandlerHook E mapped_key key_state key_addr s =
     (if \<not> active s then (True, mapped_key, s)
      else if key_state AND INJECTED \<noteq> 0 then (True, mapped_key, s)
      else if \<not> keyIsPressed key_state \<and> \<not> keyWasPressed key_state then (True, mapped_key, s)
      else
        let qukey_index = lookupQukey_p1 E s key_addr
        in if keyToggledOn key_state
           then (if key_queue_length s = 0 \<and> qukey_index = None
                 then (True, mapped_key, s)
                 else (False, Key_NoKey, enqueue_p1 E key_addr s))
           else
             let queue_index = searchQueue s key_addr
             in if keyToggledOff key_state
                then (case queue_index of
                        None \<Rightarrow> (True, mapped_key, s)
                      | Some k \<Rightarrow> (True, mapped_key, flushQueue_p1 E queue_index s))
                else if qukey_index = None
                then (case queue_index of
                        None \<Rightarrow> (True, mapped_key, s)
                      | Some k \<Rightarrow> (False, Key_NoKey, s))
                else if queue_index = None
                then (if getQukeyState key_addr s = QUKEY_STATE_ALTERNATE_p1
                      then (True, alt_keycode (qukeys_p1 s ! the qukey_index), s)
                      else (True, mapped_key, s))
                else (False, Key_NoKey, s))"

text \<open>\<^verbatim>\<open>preReportHook\<close> of the second file: the clock is read once, the head is tested.\<close>

function preReportHook_loop_p1 :: "env \<Rightarrow> 32 word \<Rightarrow> Qukeys_p1 \<Rightarrow> Qukeys_p1" where
  "preReportHook_loop_p1 E current_time s =
     (if 0 < key_queue_length s
      then (if lookupQukey_p1 E s (QueueItem.addr (slot (key_queue s) (past_key_queue s) 0)) = None
            then preReportHook_loop_p1 E current_time
                   (flushKey_p1 E QUKEY_STATE_PRIMARY_p1 (IS_PRESSED OR WAS_PRESSED) s)
            else if flush_time (slot (key_queue s) (past_key_queue s) 0) < current_time
            then preReportHook_loop_p1 E current_time
                   (flushKey_p1 E QUKEY_STATE_ALTERNATE_p1 (IS_PRESSED OR WAS_PRESSED) s)
            else s)
      else s)"
  by pat_completeness auto
termination
  by (relation "measure (\<lambda>(E, current_time, s). key_queue_length s)")
     (simp_all add: flushKey_p1_length)

declare preReportHook_loop_p1.simps [simp del]

definition preReportHook_p1 :: "env \<Rightarrow> Qukeys_p1 \<Rightarrow> Qukeys_p1" where
  "preReportHook_p1 E s = preReportHook_loop_p1 E (millis E (effects s)) s"

subsection \<open>A small keyboard to run the model on\<close>

text \<open>
  Sixteen columns, the keymap gives every key its own address as code, layer 0 is
  active and the clock stands at \<open>now\<close>. One qukey is registered, the key at row 2,
  column 1 (address 33) of the example sketch, with alternate code 227.
\<close>

definition demo_env :: "32 word \<Rightarrow> env" where
  "demo_env now =
     \<lparr>addr_addr = (\<lambda>row col. 16 * row + col),
      addr_row = (\<lambda>key_addr. key_addr div 16),
      addr_col = (\<lambda>key_addr. key_addr mod 16),
      Layer_lookup_rc = (\<lambda>w row col. ucast (16 * row + col)),
      Layer_lookupActiveLayer_rc = (\<lambda>w row col. 0),
      Layer_lookup = (\<lambda>w key_addr. ucast key_addr),
      Layer_lookupActiveLayer = (\<lambda>w key_addr. 0),
      millis = (\<lambda>w. now)\<rparr>"

definition demo_qukeys :: "qukey_state \<Rightarrow> Qukey list" where
  "demo_qukeys st = [\<lparr>layer = 0, addr = 33, alt_keycode = 227, state = st\<rparr>]"

definition demo_Qukeys :: "QueueItem list \<Rightarrow> nat \<Rightarrow> qukey_state \<Rightarrow> Qukeys" where
  "demo_Qukeys q n st =
     \<lparr>active = True, time_limit = 200, key_queue = q,
      past_key_queue = \<lparr>QueueItem.addr = 0, flush_time = 0\<rparr>,
      key_queue_length = n, effects = [], shift_reads = [],
      qukeys = demo_qukeys st, flush_calls = []\<rparr>"

definition demo_Qukeys_p1 :: "QueueItem list \<Rightarrow> nat \<Rightarrow> bool \<Rightarrow> Qukeys_p1" where
  "demo_Qukeys_p1 q n st =
     \<lparr>active = True, time_limit = 200, key_queue = q,
      past_key_queue = \<lparr>QueueItem.addr = 0, flush_time = 0\<rparr>,
      key_queue_length = n, effects = [], shift_reads = [],
      qukeys_p1 = demo_qukeys QUKEY_STATE_UNDETERMINED, qukey_state_p1 = (\<lambda>key_addr. st),
      flush_calls_p1 = []\<rparr>"

definition queue_item :: "KeyAddr \<Rightarrow> 32 word \<Rightarrow> QueueItem" where
  "queue_item a t = \<lparr>QueueItem.addr = a, flush_time = t\<rparr>"

subsection \<open>Two runs of the model and a reading of the history\<close>

text \<open>
  The first run, on \<^verbatim>\<open>Qukeys.cpp\<close>: the qukey is pressed on layer 0 at 1000 ms, the sweep
  at 1300 ms finds its deadline passed, and it is released at 1400 ms while layer 1 is
  the active layer of its position.
\<close>

definition demo_env_layer :: "int \<Rightarrow> 32 word \<Rightarrow> env" where
  "demo_env_layer l now = (demo_env now)\<lparr>Layer_lookupActiveLayer_rc := (\<lambda>w row col. l),
                                        Layer_lookupActiveLayer := (\<lambda>w key_addr. l)\<rparr>"

definition demo_start :: Qukeys where
  "demo_start = demo_Qukeys [queue_item 255 0, queue_item 255 0] 0 QUKEY_STATE_UNDETERMINED"

definition stale_press :: Qukeys where
  "stale_press = snd (keyScanHook (demo_env_layer 0 1000) 33 2 1 IS_PRESSED demo_start)"

definition stale_timeout :: Qukeys where
  "stale_timeout = preReportHook (demo_env_layer 0 1300) stale_press"

definition stale_release :: Qukeys where
  "stale_release = snd (keyScanHook (demo_env_layer 1 1400) 33 2 1 WAS_PRESSED stale_timeout)"

text \<open>
  The key states of the events a run injected with \<^verbatim>\<open>handleKeyswitchEvent\<close>, in order.
\<close>

fun injected_key_states :: "effect list \<Rightarrow> byte list" where
  "injected_key_states [] = []"
| "injected_key_states (handleKeyswitchEvent_rc keycode row col key_state # w) =
     key_state # injected_key_states w"
| "injected_key_states (handleKeyswitchEvent keycode key_addr key_state # w) =
     key_state # injected_key_states w"
| "injected_key_states (e # w) = injected_key_states w"

text \<open>
  The second run, on both files: the qukey is pressed at 4294967000 ms and the key next
  to it 100 ms later, 196 ms before the 32-bit clock returns to 0.
\<close>

definition wrap_start_p1 :: Qukeys_p1 where
  "wrap_start_p1 = demo_Qukeys_p1 [queue_item 255 0, queue_item 255 0] 0 False"

definition wrap_first :: Qukeys where
  "wrap_first = snd (keyScanHook (demo_env 4294967000) 33 2 1 IS_PRESSED demo_start)"

definition wrap_second :: Qukeys where
  "wrap_second = snd (keyScanHook (demo_env 4294967100) 34 2 2 IS_PRESSED wrap_first)"

definition wrap_first_p1 :: Qukeys_p1 where
  "wrap_first_p1 =
     snd (snd (eventHandlerHook (demo_env 4294967000) 33 IS_PRESSED 33 wrap_start_p1))"

definition wrap_second_p1 :: Qukeys_p1 where
  "wrap_second_p1 =
     snd (snd (eventHandlerHook (demo_env 4294967100) 34 IS_PRESSED 34 wrap_first_p1))"

section \<open>The queue under the plugin's operations\<close>

lemma shift_step_list:
  assumes "i < n" "n \<le> length q"
  shows "take (i + 1) (q[i := slot q past (i + 1)]) @
           take (n - (i + 1)) (drop (i + 1 + 1) (q[i := slot q past (i + 1)]) @ [past]) @
           drop n (q[i := slot q past (i + 1)])
         = take i q @ take (n - i) (drop (i + 1) q @ [past]) @ drop n q"
proof -
  let ?v = "slot q past (i + 1)"
  have a: "take (i + 1) (q[i := ?v]) = take i q @ [?v]"
    using assms by (simp add: take_Suc_conv_app_nth)
  have b: "drop (i + 1 + 1) (q[i := ?v]) = drop (i + 1 + 1) q" by simp
  have c: "drop n (q[i := ?v]) = drop n q" using assms by simp
  have d: "take (n - i) (drop (i + 1) q @ [past]) = ?v # take (n - (i + 1)) (drop (i + 1 + 1) q @ [past])"
  proof (cases "i + 1 < length q")
    case True
    then have "drop (i + 1) q = q ! (i + 1) # drop (i + 1 + 1) q"
      by (simp add: Cons_nth_drop_Suc)
    moreover have "n - i = Suc (n - (i + 1))" using assms by simp
    ultimately show ?thesis using True by (simp add: slot_def)
  next
    case False
    then have "n = length q" "i + 1 = length q" using assms by simp_all
    then show ?thesis by (simp add: slot_def)
  qed
  show ?thesis unfolding a b c d by simp
qed

lemma shift_loop_fst:
  "n \<le> length q \<Longrightarrow> i \<le> n \<Longrightarrow>
   fst (shift_loop i n past (q, r)) = take i q @ take (n - i) (drop (i + 1) q @ [past]) @ drop n q"
proof (induction i n past "(q, r)" arbitrary: q r rule: shift_loop.induct)
  case (1 i n past q r)
  show ?case
  proof (cases "i < n")
    case False
    with 1 show ?thesis by (simp add: shift_loop.simps)
  next
    case True
    let ?q' = "q[i := slot q past (i + 1)]"
    have len: "n \<le> length ?q'" "i + 1 \<le> n" using 1 True by simp_all
    have "fst (shift_loop i n past (q, r)) = fst (shift_loop (i + 1) n past (?q', r @ [i + 1]))"
      using True by (simp add: shift_loop.simps)
    also have "\<dots> = take (i + 1) ?q' @ take (n - (i + 1)) (drop (i + 1 + 1) ?q' @ [past]) @ drop n ?q'"
      using "1.hyps"[OF True len] .
    also have "\<dots> = take i q @ take (n - i) (drop (i + 1) q @ [past]) @ drop n q"
      using True "1.prems" by (rule_tac shift_step_list) simp_all
    finally show ?thesis .
  qed
qed

lemma shift_loop_snd:
  "snd (shift_loop i n past (q, r)) = r @ map Suc [i..<n]"
proof (induction i n past "(q, r)" arbitrary: q r rule: shift_loop.induct)
  case (1 i n past q r)
  show ?case
  proof (cases "i < n")
    case False
    then show ?thesis by (simp add: shift_loop.simps)
  next
    case True
    have "snd (shift_loop i n past (q, r)) =
          snd (shift_loop (i + 1) n past (q[i := slot q past (i + 1)], r @ [i + 1]))"
      using True by (simp add: shift_loop.simps)
    also have "\<dots> = (r @ [i + 1]) @ map Suc [i + 1..<n]"
      using "1.hyps"[OF True] .
    also have "\<dots> = r @ map Suc [i..<n]"
      using True by (simp add: upt_conv_Cons)
    finally show ?thesis .
  qed
qed

lemma shift_loop_length:
  "length (fst (shift_loop i n past (q, r))) = length q"
proof (induction i n past "(q, r)" arbitrary: q r rule: shift_loop.induct)
  case (1 i n past q r)
  show ?case
  proof (cases "i < n")
    case False
    then show ?thesis by (simp add: shift_loop.simps)
  next
    case True
    then show ?thesis using "1.hyps"[OF True] by (simp add: shift_loop.simps)
  qed
qed

lemma shift_queue_capacity [simp]: "QUKEYS_QUEUE_MAX (shift_queue s) = QUKEYS_QUEUE_MAX s"
  by (simp add: shift_queue_def QUKEYS_QUEUE_MAX_def Let_def shift_loop_length)

lemma shift_queue_reads:
  "shift_reads (shift_queue s) = shift_reads s @ map Suc [0..<key_queue_length s]"
  by (simp add: shift_queue_def Let_def shift_loop_snd)

lemma shift_queue_pending:
  assumes "queue_ok s" "0 < key_queue_length s"
  shows "pending (shift_queue s) = tl (pending s)"
proof -
  have n: "key_queue_length s \<le> length (key_queue s)"
    using assms by (simp_all add: queue_ok_def QUKEYS_QUEUE_MAX_def)
  have "key_queue (shift_queue s) =
        take (key_queue_length s) (drop 1 (key_queue s) @ [past_key_queue s]) @
        drop (key_queue_length s) (key_queue s)"
    using shift_loop_fst[OF n, of 0 "past_key_queue s" "shift_reads s"]
    by (simp add: shift_queue_def Let_def)
  then have "pending (shift_queue s) =
      take (key_queue_length s - 1)
        (take (key_queue_length s) (tl (key_queue s) @ [past_key_queue s]) @
         drop (key_queue_length s) (key_queue s))"
    using assms(2) by (simp add: pending_def drop_Suc)
  also have "\<dots> = take (key_queue_length s - 1) (tl (key_queue s))"
    using n assms(2) by simp
  also have "\<dots> = tl (pending s)"
    by (simp add: pending_def tl_take)
  finally show ?thesis .
qed

lemma shift_queue_ok:
  "queue_ok s \<Longrightarrow> 0 < key_queue_length s \<Longrightarrow> queue_ok (shift_queue s)"
  by (auto simp: queue_ok_def)

lemma shift_queue_other [simp]:
  "active (shift_queue s) = active s"
  "time_limit (shift_queue s) = time_limit s"
  "effects (shift_queue s) = effects s"
  "past_key_queue (shift_queue s) = past_key_queue s"
  "engine.more (shift_queue s) = engine.more s"
  by (simp_all add: shift_queue_def Let_def)

lemma slot_0_hd:
  "queue_ok s \<Longrightarrow> 0 < key_queue_length s \<Longrightarrow>
   slot (key_queue s) (past_key_queue s) 0 = hd (pending s)"
  by (auto simp: slot_def pending_def queue_ok_def QUKEYS_QUEUE_MAX_def hd_conv_nth)

lemma set_state_engine [simp]:
  "active (set_state i st s) = active s"
  "time_limit (set_state i st s) = time_limit s"
  "key_queue (set_state i st s) = key_queue s"
  "past_key_queue (set_state i st s) = past_key_queue s"
  "effects (set_state i st s) = effects s"
  "shift_reads (set_state i st s) = shift_reads s"
  "flush_calls (set_state i st s) = flush_calls s"
  "pending (set_state i st s) = pending s"
  "QUKEYS_QUEUE_MAX (set_state i st s) = QUKEYS_QUEUE_MAX s"
  "queue_ok (set_state i st s) = queue_ok s"
  by (simp_all add: set_state_def pending_def QUKEYS_QUEUE_MAX_def queue_ok_def)

lemma pending_cong:
  "key_queue s' = key_queue s \<Longrightarrow> key_queue_length s' = key_queue_length s \<Longrightarrow> pending s' = pending s"
  by (simp add: pending_def)

lemma flushKey_key_queue: "key_queue (flushKey E r k s) = key_queue (shift_queue s)"
  by (simp add: flushKey_def Let_def shift_queue_def set_state_def split: option.splits)

lemma flushKey_pending:
  assumes "queue_ok s" "0 < key_queue_length s"
  shows "pending (flushKey E r k s) = tl (pending s)"
proof -
  have "pending (flushKey E r k s) = pending (shift_queue s)"
    by (simp add: pending_def flushKey_key_queue flushKey_length)
  then show ?thesis using assms by (simp add: shift_queue_pending)
qed

lemma flushKey_capacity [simp]: "QUKEYS_QUEUE_MAX (flushKey E r k s) = QUKEYS_QUEUE_MAX s"
  using shift_queue_capacity[of s] by (simp add: QUKEYS_QUEUE_MAX_def flushKey_key_queue)

lemma flushKey_ok:
  "queue_ok s \<Longrightarrow> 0 < key_queue_length s \<Longrightarrow> queue_ok (flushKey E r k s)"
  by (auto simp: queue_ok_def flushKey_length)

lemma flushKey_calls:
  "flush_calls (flushKey E r k s) = flush_calls s @
     [\<lparr>fc_item = slot (key_queue s) (past_key_queue s) 0, fc_role = r, fc_keyswitch = k\<rparr>]"
  by (simp add: flushKey_def Let_def shift_queue_def set_state_def split: option.splits)

lemma flushKey_reads:
  "shift_reads (flushKey E r k s) = shift_reads s @ map Suc [0..<key_queue_length s]"
  by (simp add: flushKey_def Let_def shift_queue_reads set_state_def split: option.splits)

lemma flushKey_frame [simp]:
  "active (flushKey E r k s) = active s"
  "time_limit (flushKey E r k s) = time_limit s"
  "past_key_queue (flushKey E r k s) = past_key_queue s"
  by (simp_all add: flushKey_def Let_def set_state_def split: option.splits)

lemma setQukeyState_engine [simp]:
  "active (setQukeyState a b s) = active s"
  "time_limit (setQukeyState a b s) = time_limit s"
  "key_queue (setQukeyState a b s) = key_queue s"
  "key_queue_length (setQukeyState a b s) = key_queue_length s"
  "past_key_queue (setQukeyState a b s) = past_key_queue s"
  "effects (setQukeyState a b s) = effects s"
  "shift_reads (setQukeyState a b s) = shift_reads s"
  "flush_calls_p1 (setQukeyState a b s) = flush_calls_p1 s"
  "qukeys_p1 (setQukeyState a b s) = qukeys_p1 s"
  by (simp_all add: setQukeyState_def)

lemma flushKey_p1_key_queue: "key_queue (flushKey_p1 E r k s) = key_queue (shift_queue s)"
  by (simp add: flushKey_p1_def Let_def shift_queue_def)

lemma flushKey_p1_pending:
  assumes "queue_ok s" "0 < key_queue_length s"
  shows "pending (flushKey_p1 E r k s) = tl (pending s)"
proof -
  have "pending (flushKey_p1 E r k s) = pending (shift_queue s)"
    by (simp add: pending_def flushKey_p1_key_queue flushKey_p1_length)
  then show ?thesis using assms by (simp add: shift_queue_pending)
qed

lemma flushKey_p1_capacity [simp]: "QUKEYS_QUEUE_MAX (flushKey_p1 E r k s) = QUKEYS_QUEUE_MAX s"
  using shift_queue_capacity[of s] by (simp add: QUKEYS_QUEUE_MAX_def flushKey_p1_key_queue)

lemma flushKey_p1_ok:
  "queue_ok s \<Longrightarrow> 0 < key_queue_length s \<Longrightarrow> queue_ok (flushKey_p1 E r k s)"
  by (auto simp: queue_ok_def flushKey_p1_length)

lemma flushKey_p1_calls:
  "flush_calls_p1 (flushKey_p1 E r k s) = flush_calls_p1 s @
     [\<lparr>fc_item = slot (key_queue s) (past_key_queue s) 0, fc_role = r, fc_keyswitch = k\<rparr>]"
  by (simp add: flushKey_p1_def Let_def shift_queue_def)

lemma flushKey_p1_reads:
  "shift_reads (flushKey_p1 E r k s) = shift_reads s @ map Suc [0..<key_queue_length s]"
  by (simp add: flushKey_p1_def Let_def shift_queue_reads)

lemma flushKey_p1_frame [simp]:
  "active (flushKey_p1 E r k s) = active s"
  "time_limit (flushKey_p1 E r k s) = time_limit s"
  "past_key_queue (flushKey_p1 E r k s) = past_key_queue s"
  "qukeys_p1 (flushKey_p1 E r k s) = qukeys_p1 s"
  by (simp_all add: flushKey_p1_def Let_def shift_queue_def)

lemma flushKey_qukeys_length [simp]: "length (qukeys (flushKey E r k s)) = length (qukeys s)"
  by (simp add: flushKey_def Let_def shift_queue_def set_state_def split: option.splits)

lemma pending_length: "queue_ok s \<Longrightarrow> length (pending s) = key_queue_length s"
  by (simp add: pending_def queue_ok_def QUKEYS_QUEUE_MAX_def)

lemma flushKey_calls_hd:
  "queue_ok s \<Longrightarrow> 0 < key_queue_length s \<Longrightarrow>
   flush_calls (flushKey E r k s) = flush_calls s @
     [\<lparr>fc_item = hd (pending s), fc_role = r, fc_keyswitch = k\<rparr>]"
  by (simp add: flushKey_calls slot_0_hd)

lemma flushQueue_loop_run:
  "queue_ok s \<Longrightarrow> k \<le> key_queue_length s \<Longrightarrow>
   queue_ok (flushQueue_loop E k s) \<and>
   pending (flushQueue_loop E k s) = drop k (pending s) \<and>
   key_queue_length (flushQueue_loop E k s) = key_queue_length s - k \<and>
   flush_calls (flushQueue_loop E k s) = flush_calls s @
     map (\<lambda>q. \<lparr>fc_item = q, fc_role = QUKEY_STATE_ALTERNATE, fc_keyswitch = IS_PRESSED OR WAS_PRESSED\<rparr>)
       (take k (pending s))"
proof (induction k arbitrary: s)
  case 0
  then show ?case by simp
next
  case (Suc k)
  let ?s1 = "flushKey E QUKEY_STATE_ALTERNATE (IS_PRESSED OR WAS_PRESSED) s"
  have pos: "0 < key_queue_length s" using Suc.prems by simp
  have ok1: "queue_ok ?s1" using Suc.prems pos by (simp add: flushKey_ok)
  have len1: "k \<le> key_queue_length ?s1" using Suc.prems pos by (simp add: flushKey_length)
  have ne: "pending s \<noteq> []" using Suc.prems pos pending_length[of s] by auto
  note IH = Suc.IH[OF ok1 len1]
  have step: "flushQueue_loop E (Suc k) s = flushQueue_loop E k ?s1" using pos by simp
  have p1: "pending ?s1 = tl (pending s)" using Suc.prems pos by (simp add: flushKey_pending)
  have c1: "flush_calls ?s1 = flush_calls s @
     [\<lparr>fc_item = hd (pending s), fc_role = QUKEY_STATE_ALTERNATE, fc_keyswitch = IS_PRESSED OR WAS_PRESSED\<rparr>]"
    using Suc.prems pos by (simp add: flushKey_calls_hd)
  have t: "take (Suc k) (pending s) = hd (pending s) # take k (tl (pending s))"
    using ne by (cases "pending s") simp_all
  show ?case
    unfolding step using IH pos by (simp add: p1 c1 t drop_Suc flushKey_length)
qed

lemma slot_pending:
  "queue_ok s \<Longrightarrow> k < key_queue_length s \<Longrightarrow>
   slot (key_queue s) (past_key_queue s) k = pending s ! k"
  by (simp add: slot_def pending_def queue_ok_def QUKEYS_QUEUE_MAX_def)

lemma searchQueue_from_Some:
  "searchQueue_from s a i = Some k \<Longrightarrow>
   i \<le> k \<and> k < key_queue_length s \<and>
   QueueItem.addr (slot (key_queue s) (past_key_queue s) k) = a \<and>
   (\<forall>j. i \<le> j \<and> j < k \<longrightarrow> QueueItem.addr (slot (key_queue s) (past_key_queue s) j) \<noteq> a)"
proof (induction s a i rule: searchQueue_from.induct)
  case (1 s a i)
  show ?case
  proof (cases "i < key_queue_length s \<and> QueueItem.addr (slot (key_queue s) (past_key_queue s) i) \<noteq> a")
    case True
    then have "searchQueue_from s a (i + 1) = Some k"
      using "1.prems" by (subst (asm) searchQueue_from.simps) simp
    with "1.IH" True have IH:
      "i + 1 \<le> k \<and> k < key_queue_length s \<and>
       QueueItem.addr (slot (key_queue s) (past_key_queue s) k) = a \<and>
       (\<forall>j. i + 1 \<le> j \<and> j < k \<longrightarrow> QueueItem.addr (slot (key_queue s) (past_key_queue s) j) \<noteq> a)"
      by simp
    have "QueueItem.addr (slot (key_queue s) (past_key_queue s) j) \<noteq> a" if "i \<le> j" "j < k" for j
    proof (cases "j = i")
      case True
      with \<open>i < key_queue_length s \<and> _\<close> show ?thesis by simp
    next
      case False
      with that IH show ?thesis by simp
    qed
    with IH show ?thesis by simp
  next
    case False
    then show ?thesis using "1.prems"
      by (subst (asm) searchQueue_from.simps) (auto split: if_splits)
  qed
qed

lemma searchQueue_Some:
  assumes "queue_ok s" "searchQueue s a = Some k"
  shows "k < key_queue_length s" "QueueItem.addr (pending s ! k) = a"
    "\<forall>j<k. QueueItem.addr (pending s ! j) \<noteq> a"
proof -
  from searchQueue_from_Some[of s a 0 k] assms(2)
  have *: "k < key_queue_length s"
    "QueueItem.addr (slot (key_queue s) (past_key_queue s) k) = a"
    "\<forall>j. j < k \<longrightarrow> QueueItem.addr (slot (key_queue s) (past_key_queue s) j) \<noteq> a"
    by (simp_all add: searchQueue_def)
  show "k < key_queue_length s" by fact
  show "QueueItem.addr (pending s ! k) = a" using * assms(1) by (simp add: slot_pending)
  show "\<forall>j<k. QueueItem.addr (pending s ! j) \<noteq> a"
  proof (intro allI impI)
    fix j assume "j < k"
    then have "j < key_queue_length s" using *(1) by simp
    then show "QueueItem.addr (pending s ! j) \<noteq> a"
      using *(3) \<open>j < k\<close> assms(1) slot_pending[of s j] by auto
  qed
qed

lemma enqueue_write:
  assumes "n < length q"
  shows "take (Suc n) (q[n := item]) = take n q @ [item]"
  using assms by (simp add: take_Suc_conv_app_nth)

lemma pending_append:
  assumes "queue_ok s" "key_queue_length s < QUKEYS_QUEUE_MAX s"
  shows "pending (s\<lparr>key_queue := (key_queue s)[key_queue_length s := item],
                    key_queue_length := (key_queue_length s + 1) mod 256\<rparr>) = pending s @ [item]"
    and "queue_ok (s\<lparr>key_queue := (key_queue s)[key_queue_length s := item],
                    key_queue_length := (key_queue_length s + 1) mod 256\<rparr>)"
proof -
  have n: "key_queue_length s < length (key_queue s)" "key_queue_length s + 1 < 256"
    using assms by (simp_all add: queue_ok_def QUKEYS_QUEUE_MAX_def)
  show "pending (s\<lparr>key_queue := (key_queue s)[key_queue_length s := item],
                    key_queue_length := (key_queue_length s + 1) mod 256\<rparr>) = pending s @ [item]"
    using n by (simp add: pending_def enqueue_write)
  show "queue_ok (s\<lparr>key_queue := (key_queue s)[key_queue_length s := item],
                    key_queue_length := (key_queue_length s + 1) mod 256\<rparr>)"
    using n assms by (simp add: queue_ok_def QUKEYS_QUEUE_MAX_def)
qed

lemma enqueue_not_full:
  assumes "queue_ok s" "key_queue_length s \<noteq> QUKEYS_QUEUE_MAX s"
  shows "pending (enqueue E a s) = pending s @
           [\<lparr>QueueItem.addr = a, flush_time = millis E (effects s) + ucast (time_limit s)\<rparr>]"
    and "queue_ok (enqueue E a s)"
    and "flush_calls (enqueue E a s) = flush_calls s"
proof -
  have lt: "key_queue_length s < QUKEYS_QUEUE_MAX s" using assms by (simp add: queue_ok_def)
  show "pending (enqueue E a s) = pending s @
           [\<lparr>QueueItem.addr = a, flush_time = millis E (effects s) + ucast (time_limit s)\<rparr>]"
    using assms(2) pending_append(1)[OF assms(1) lt] by (simp add: enqueue_def Let_def)
  show "queue_ok (enqueue E a s)"
    using assms(2) pending_append(2)[OF assms(1) lt] by (simp add: enqueue_def Let_def)
  show "flush_calls (enqueue E a s) = flush_calls s"
    using assms(2) by (simp add: enqueue_def Let_def)
qed

lemma enqueue_full:
  assumes "queue_ok s" "key_queue_length s = QUKEYS_QUEUE_MAX s"
  shows "pending (enqueue E a s) = tl (pending s) @
           [\<lparr>QueueItem.addr = a,
             flush_time = millis E (effects (flushKey E QUKEY_STATE_PRIMARY (IS_PRESSED OR WAS_PRESSED) s))
                          + ucast (time_limit s)\<rparr>]"
    and "queue_ok (enqueue E a s)"
    and "flush_calls (enqueue E a s) = flush_calls s @
           [\<lparr>fc_item = hd (pending s), fc_role = QUKEY_STATE_PRIMARY,
             fc_keyswitch = IS_PRESSED OR WAS_PRESSED\<rparr>]"
proof -
  let ?s1 = "flushKey E QUKEY_STATE_PRIMARY (IS_PRESSED OR WAS_PRESSED) s"
  have pos: "0 < key_queue_length s" using assms by (simp add: queue_ok_def)
  have ok1: "queue_ok ?s1" using assms(1) pos by (rule flushKey_ok)
  have lt: "key_queue_length ?s1 < QUKEYS_QUEUE_MAX ?s1"
    using assms pos by (simp add: flushKey_length)
  show "pending (enqueue E a s) = tl (pending s) @
           [\<lparr>QueueItem.addr = a, flush_time = millis E (effects ?s1) + ucast (time_limit s)\<rparr>]"
    using assms pending_append(1)[OF ok1 lt] pos
    by (simp add: enqueue_def Let_def flushKey_pending)
  show "queue_ok (enqueue E a s)"
    using assms(2) pending_append(2)[OF ok1 lt] by (simp add: enqueue_def Let_def)
  show "flush_calls (enqueue E a s) = flush_calls s @
           [\<lparr>fc_item = hd (pending s), fc_role = QUKEY_STATE_PRIMARY,
             fc_keyswitch = IS_PRESSED OR WAS_PRESSED\<rparr>]"
    using assms pos by (simp add: enqueue_def Let_def flushKey_calls_hd)
qed

lemma flushQueue_run:
  assumes "queue_ok s" "k < key_queue_length s"
  shows "queue_ok (flushQueue E (Some k) s)"
    and "pending (flushQueue E (Some k) s) = drop (Suc k) (pending s)"
    and "flush_calls (flushQueue E (Some k) s) = flush_calls s @
           map (\<lambda>q. \<lparr>fc_item = q, fc_role = QUKEY_STATE_ALTERNATE,
                        fc_keyswitch = IS_PRESSED OR WAS_PRESSED\<rparr>) (take k (pending s)) @
           [\<lparr>fc_item = pending s ! k, fc_role = QUKEY_STATE_PRIMARY, fc_keyswitch = WAS_PRESSED\<rparr>]"
proof -
  let ?u = "flushQueue_loop E k s"
  have le: "k \<le> key_queue_length s" using assms(2) by simp
  note run = flushQueue_loop_run[OF assms(1) le, of E]
  have pos: "0 < key_queue_length ?u" using run assms(2) by simp
  have oku: "queue_ok ?u" using run by simp
  have kl: "k < length (pending s)" using assms by (simp add: pending_length)
  have hd: "hd (pending ?u) = pending s ! k"
    using run kl by (simp add: hd_drop_conv_nth)
  show "queue_ok (flushQueue E (Some k) s)"
    using oku pos by (simp add: flushQueue_def flushKey_ok)
  show "pending (flushQueue E (Some k) s) = drop (Suc k) (pending s)"
    using oku pos run by (simp add: flushQueue_def flushKey_pending drop_Suc drop_tl)
  show "flush_calls (flushQueue E (Some k) s) = flush_calls s @
           map (\<lambda>q. \<lparr>fc_item = q, fc_role = QUKEY_STATE_ALTERNATE,
                        fc_keyswitch = IS_PRESSED OR WAS_PRESSED\<rparr>) (take k (pending s)) @
           [\<lparr>fc_item = pending s ! k, fc_role = QUKEY_STATE_PRIMARY, fc_keyswitch = WAS_PRESSED\<rparr>]"
    using oku pos run hd by (simp add: flushQueue_def flushKey_calls_hd)
qed

lemma keyScanHook_ok:
  assumes "queue_ok s"
  shows "queue_ok (snd (keyScanHook E mapped_key row col key_state s))"
proof -
  let ?a = "addr_addr E row col"
  have enq: "queue_ok (enqueue E ?a s)"
    using assms enqueue_full(2)[of s E ?a] enqueue_not_full(2)[of s E ?a] by blast
  have fl: "queue_ok (flushQueue E (Some k) s)" if "searchQueue s ?a = Some k" for k
    using assms that searchQueue_Some(1)[OF assms that] by (simp add: flushQueue_run(1))
  show ?thesis
  proof (cases "keyToggledOn key_state")
    case True
    then have "\<not> keyToggledOff key_state" by (simp add: keyToggledOn_def keyToggledOff_def)
    with True enq assms show ?thesis
      by (simp add: keyScanHook_def Let_def split: option.splits)
  next
    case False
    with assms fl show ?thesis
      by (auto simp: keyScanHook_def Let_def split: option.splits)
  qed
qed

lemma preReportHook_loop_run:
  "queue_ok s \<Longrightarrow>
   \<exists>n\<le>length (pending s).
     queue_ok (preReportHook_loop E t i s) \<and>
     pending (preReportHook_loop E t i s) = drop n (pending s) \<and>
     flush_calls (preReportHook_loop E t i s) = flush_calls s @
       map (\<lambda>q. \<lparr>fc_item = q, fc_role = QUKEY_STATE_ALTERNATE,
                    fc_keyswitch = IS_PRESSED OR WAS_PRESSED\<rparr>) (take n (pending s)) \<and>
     (sorted (map flush_time (pending s)) \<longrightarrow> (\<forall>q\<in>set (take n (pending s)). flush_time q < t))"
proof (induction E t i s rule: preReportHook_loop.induct)
  case (1 E t i s)
  let ?go = "i < key_queue_length s \<and> flush_time (slot (key_queue s) (past_key_queue s) i) < t"
  show ?case
  proof (cases ?go)
    case False
    then have "preReportHook_loop E t i s = s"
      by (subst preReportHook_loop.simps) auto
    then show ?thesis using "1.prems" by (intro exI[of _ 0]) simp
  next
    case True
    let ?s1 = "flushKey E QUKEY_STATE_ALTERNATE (IS_PRESSED OR WAS_PRESSED) s"
    have pos: "0 < key_queue_length s" using True by simp
    have ok1: "queue_ok ?s1" using "1.prems" pos by (rule flushKey_ok)
    have step: "preReportHook_loop E t i s = preReportHook_loop E t (i + 1) ?s1"
      using True by (subst preReportHook_loop.simps) simp
    have p1: "pending ?s1 = tl (pending s)" using "1.prems" pos by (rule flushKey_pending)
    have c1: "flush_calls ?s1 = flush_calls s @
       [\<lparr>fc_item = hd (pending s), fc_role = QUKEY_STATE_ALTERNATE,
         fc_keyswitch = IS_PRESSED OR WAS_PRESSED\<rparr>]"
      using "1.prems" pos by (rule flushKey_calls_hd)
    have ne: "pending s \<noteq> []" using "1.prems" pos pending_length[of s] by auto
    from "1.IH"[OF _ _ ok1] True obtain n where n:
      "n \<le> length (pending ?s1)"
      "queue_ok (preReportHook_loop E t (i + 1) ?s1)"
      "pending (preReportHook_loop E t (i + 1) ?s1) = drop n (pending ?s1)"
      "flush_calls (preReportHook_loop E t (i + 1) ?s1) = flush_calls ?s1 @
         map (\<lambda>q. \<lparr>fc_item = q, fc_role = QUKEY_STATE_ALTERNATE,
                      fc_keyswitch = IS_PRESSED OR WAS_PRESSED\<rparr>) (take n (pending ?s1))"
      "sorted (map flush_time (pending ?s1)) \<longrightarrow> (\<forall>q\<in>set (take n (pending ?s1)). flush_time q < t)"
      by auto
    have t: "take (Suc n) (pending s) = hd (pending s) # take n (tl (pending s))"
      using ne by (cases "pending s") simp_all
    have due: "flush_time (hd (pending s)) < t" if srt: "sorted (map flush_time (pending s))"
    proof -
      have il: "i < length (pending s)" using True "1.prems" by (simp add: pending_length)
      have "flush_time (pending s ! 0) \<le> flush_time (pending s ! i)"
        using sorted_nth_mono[OF srt, of 0 i] il ne by (simp add: nth_map)
      moreover have "flush_time (pending s ! i) < t"
        using True slot_pending[OF "1.prems", of i] by auto
      ultimately show ?thesis using ne by (simp add: hd_conv_nth)
    qed
    have srt1: "sorted (map flush_time (pending ?s1))" if "sorted (map flush_time (pending s))"
      using that ne unfolding p1 by (cases "pending s") simp_all
    show ?thesis
    proof (intro exI[of _ "Suc n"] conjI impI)
      show "Suc n \<le> length (pending s)" using n(1) ne unfolding p1 by (cases "pending s") simp_all
      show "queue_ok (preReportHook_loop E t i s)" unfolding step by (rule n(2))
      show "pending (preReportHook_loop E t i s) = drop (Suc n) (pending s)"
        unfolding step n(3) p1 by (simp add: drop_Suc)
      show "flush_calls (preReportHook_loop E t i s) = flush_calls s @
         map (\<lambda>q. \<lparr>fc_item = q, fc_role = QUKEY_STATE_ALTERNATE,
                      fc_keyswitch = IS_PRESSED OR WAS_PRESSED\<rparr>) (take (Suc n) (pending s))"
        unfolding step n(4) c1 t p1 by simp
      assume srt: "sorted (map flush_time (pending s))"
      show "\<forall>q\<in>set (take (Suc n) (pending s)). flush_time q < t"
        unfolding t using due[OF srt] n(5) srt1[OF srt] unfolding p1 by simp
    qed
  qed
qed

lemma flushKey_p1_calls_hd:
  "queue_ok s \<Longrightarrow> 0 < key_queue_length s \<Longrightarrow>
   flush_calls_p1 (flushKey_p1 E r k s) = flush_calls_p1 s @
     [\<lparr>fc_item = hd (pending s), fc_role = r, fc_keyswitch = k\<rparr>]"
  by (simp add: flushKey_p1_calls slot_0_hd)

lemma flushQueue_loop_p1_run:
  "queue_ok s \<Longrightarrow> k \<le> key_queue_length s \<Longrightarrow>
   queue_ok (flushQueue_loop_p1 E k s) \<and>
   pending (flushQueue_loop_p1 E k s) = drop k (pending s) \<and>
   key_queue_length (flushQueue_loop_p1 E k s) = key_queue_length s - k \<and>
   flush_calls_p1 (flushQueue_loop_p1 E k s) = flush_calls_p1 s @
     map (\<lambda>q. \<lparr>fc_item = q, fc_role = QUKEY_STATE_ALTERNATE_p1, fc_keyswitch = IS_PRESSED OR WAS_PRESSED\<rparr>)
       (take k (pending s))"
proof (induction k arbitrary: s)
  case 0
  then show ?case by simp
next
  case (Suc k)
  let ?s1 = "flushKey_p1 E QUKEY_STATE_ALTERNATE_p1 (IS_PRESSED OR WAS_PRESSED) s"
  have pos: "0 < key_queue_length s" using Suc.prems by simp
  have ok1: "queue_ok ?s1" using Suc.prems pos by (simp add: flushKey_p1_ok)
  have len1: "k \<le> key_queue_length ?s1" using Suc.prems pos by (simp add: flushKey_p1_length)
  have ne: "pending s \<noteq> []" using Suc.prems pos pending_length[of s] by auto
  note IH = Suc.IH[OF ok1 len1]
  have step: "flushQueue_loop_p1 E (Suc k) s = flushQueue_loop_p1 E k ?s1" using pos by simp
  have p1: "pending ?s1 = tl (pending s)" using Suc.prems pos by (simp add: flushKey_p1_pending)
  have c1: "flush_calls_p1 ?s1 = flush_calls_p1 s @
     [\<lparr>fc_item = hd (pending s), fc_role = QUKEY_STATE_ALTERNATE_p1, fc_keyswitch = IS_PRESSED OR WAS_PRESSED\<rparr>]"
    using Suc.prems pos by (simp add: flushKey_p1_calls_hd)
  have t: "take (Suc k) (pending s) = hd (pending s) # take k (tl (pending s))"
    using ne by (cases "pending s") simp_all
  show ?case
    unfolding step using IH pos by (simp add: p1 c1 t drop_Suc flushKey_p1_length)
qed

lemma flushQueue_p1_run:
  assumes "queue_ok s" "k < key_queue_length s"
  shows "queue_ok (flushQueue_p1 E (Some k) s)"
    and "pending (flushQueue_p1 E (Some k) s) = drop (Suc k) (pending s)"
    and "flush_calls_p1 (flushQueue_p1 E (Some k) s) = flush_calls_p1 s @
           map (\<lambda>q. \<lparr>fc_item = q, fc_role = QUKEY_STATE_ALTERNATE_p1,
                        fc_keyswitch = IS_PRESSED OR WAS_PRESSED\<rparr>) (take k (pending s)) @
           [\<lparr>fc_item = pending s ! k, fc_role = QUKEY_STATE_PRIMARY_p1, fc_keyswitch = WAS_PRESSED\<rparr>]"
proof -
  let ?u = "flushQueue_loop_p1 E k s"
  have le: "k \<le> key_queue_length s" using assms(2) by simp
  note run = flushQueue_loop_p1_run[OF assms(1) le, of E]
  have pos: "0 < key_queue_length ?u" using run assms(2) by simp
  have oku: "queue_ok ?u" using run by simp
  have kl: "k < length (pending s)" using assms by (simp add: pending_length)
  have hd: "hd (pending ?u) = pending s ! k"
    using run kl by (simp add: hd_drop_conv_nth)
  show "queue_ok (flushQueue_p1 E (Some k) s)"
    using oku pos by (simp add: flushQueue_p1_def flushKey_p1_ok)
  show "pending (flushQueue_p1 E (Some k) s) = drop (Suc k) (pending s)"
    using oku pos run by (simp add: flushQueue_p1_def flushKey_p1_pending drop_Suc drop_tl)
  show "flush_calls_p1 (flushQueue_p1 E (Some k) s) = flush_calls_p1 s @
           map (\<lambda>q. \<lparr>fc_item = q, fc_role = QUKEY_STATE_ALTERNATE_p1,
                        fc_keyswitch = IS_PRESSED OR WAS_PRESSED\<rparr>) (take k (pending s)) @
           [\<lparr>fc_item = pending s ! k, fc_role = QUKEY_STATE_PRIMARY_p1, fc_keyswitch = WAS_PRESSED\<rparr>]"
    using oku pos run hd by (simp add: flushQueue_p1_def flushKey_p1_calls_hd)
qed

lemma flushQueue_void_p1_run:
  "queue_ok s \<Longrightarrow>
   \<exists>n\<le>length (pending s).
     queue_ok (flushQueue_void_p1 E s) \<and>
     pending (flushQueue_void_p1 E s) = drop n (pending s) \<and>
     time_limit (flushQueue_void_p1 E s) = time_limit s \<and>
     flush_calls_p1 (flushQueue_void_p1 E s) = flush_calls_p1 s @
       map (\<lambda>q. \<lparr>fc_item = q, fc_role = QUKEY_STATE_PRIMARY_p1,
                    fc_keyswitch = IS_PRESSED OR WAS_PRESSED\<rparr>) (take n (pending s))"
proof (induction E s rule: flushQueue_void_p1.induct)
  case (1 E s)
  let ?go = "0 < key_queue_length s \<and>
     lookupQukey_p1 E s (QueueItem.addr (slot (key_queue s) (past_key_queue s) 0)) = None"
  show ?case
  proof (cases ?go)
    case False
    then have "flushQueue_void_p1 E s = s"
      by (subst flushQueue_void_p1.simps) auto
    then show ?thesis using "1.prems" by (intro exI[of _ 0]) simp
  next
    case True
    let ?s1 = "flushKey_p1 E QUKEY_STATE_PRIMARY_p1 (IS_PRESSED OR WAS_PRESSED) s"
    have pos: "0 < key_queue_length s" using True by simp
    have ok1: "queue_ok ?s1" using "1.prems" pos by (rule flushKey_p1_ok)
    have step: "flushQueue_void_p1 E s = flushQueue_void_p1 E ?s1"
      using True by (subst flushQueue_void_p1.simps) simp
    have p1: "pending ?s1 = tl (pending s)" using "1.prems" pos by (rule flushKey_p1_pending)
    have c1: "flush_calls_p1 ?s1 = flush_calls_p1 s @
       [\<lparr>fc_item = hd (pending s), fc_role = QUKEY_STATE_PRIMARY_p1,
         fc_keyswitch = IS_PRESSED OR WAS_PRESSED\<rparr>]"
      using "1.prems" pos by (rule flushKey_p1_calls_hd)
    have ne: "pending s \<noteq> []" using "1.prems" pos pending_length[of s] by auto
    from "1.IH"[OF True ok1] obtain n where n:
      "n \<le> length (pending ?s1)"
      "queue_ok (flushQueue_void_p1 E ?s1)"
      "pending (flushQueue_void_p1 E ?s1) = drop n (pending ?s1)"
      "time_limit (flushQueue_void_p1 E ?s1) = time_limit ?s1"
      "flush_calls_p1 (flushQueue_void_p1 E ?s1) = flush_calls_p1 ?s1 @
         map (\<lambda>q. \<lparr>fc_item = q, fc_role = QUKEY_STATE_PRIMARY_p1,
                      fc_keyswitch = IS_PRESSED OR WAS_PRESSED\<rparr>) (take n (pending ?s1))"
      by auto
    have t: "take (Suc n) (pending s) = hd (pending s) # take n (tl (pending s))"
      using ne by (cases "pending s") simp_all
    show ?thesis
    proof (intro exI[of _ "Suc n"] conjI)
      show "Suc n \<le> length (pending s)" using n(1) ne unfolding p1 by (cases "pending s") simp_all
      show "queue_ok (flushQueue_void_p1 E s)" unfolding step by (rule n(2))
      show "pending (flushQueue_void_p1 E s) = drop (Suc n) (pending s)"
        unfolding step n(3) p1 by (simp add: drop_Suc)
      show "time_limit (flushQueue_void_p1 E s) = time_limit s"
        unfolding step n(4) by simp
      show "flush_calls_p1 (flushQueue_void_p1 E s) = flush_calls_p1 s @
         map (\<lambda>q. \<lparr>fc_item = q, fc_role = QUKEY_STATE_PRIMARY_p1,
                      fc_keyswitch = IS_PRESSED OR WAS_PRESSED\<rparr>) (take (Suc n) (pending s))"
        unfolding step n(5) c1 t p1 by simp
    qed
  qed
qed

lemma pending_effects [simp]: "pending (s\<lparr>effects := w\<rparr>) = pending s"
  by (simp add: pending_def)

lemma queue_ok_effects [simp]: "queue_ok (s\<lparr>effects := w\<rparr>) = queue_ok s"
  by (simp add: queue_ok_def QUKEYS_QUEUE_MAX_def)

lemma flushQueue_void_p1_capacity [simp]:
  "QUKEYS_QUEUE_MAX (flushQueue_void_p1 E s) = QUKEYS_QUEUE_MAX s"
proof (induction E s rule: flushQueue_void_p1.induct)
  case (1 E s)
  show ?case
  proof (cases "0 < key_queue_length s \<and>
     lookupQukey_p1 E s (QueueItem.addr (slot (key_queue s) (past_key_queue s) 0)) = None")
    case True
    then show ?thesis using "1.IH" by (subst flushQueue_void_p1.simps) simp
  next
    case False
    then show ?thesis by (subst flushQueue_void_p1.simps) auto
  qed
qed

lemma enqueue_p1_not_full:
  assumes "queue_ok s" "key_queue_length s \<noteq> QUKEYS_QUEUE_MAX s"
  shows "pending (enqueue_p1 E a s) = pending s @
           [\<lparr>QueueItem.addr = a, flush_time = millis E (effects s) + ucast (time_limit s)\<rparr>]"
    and "queue_ok (enqueue_p1 E a s)"
    and "flush_calls_p1 (enqueue_p1 E a s) = flush_calls_p1 s"
proof -
  have lt: "key_queue_length s < QUKEYS_QUEUE_MAX s" using assms by (simp add: queue_ok_def)
  have e: "enqueue_p1 E a s =
     (s\<lparr>key_queue := (key_queue s)[key_queue_length s :=
            \<lparr>QueueItem.addr = a, flush_time = millis E (effects s) + ucast (time_limit s)\<rparr>],
         key_queue_length := (key_queue_length s + 1) mod 256\<rparr>)\<lparr>effects := effects s @ [maskKey a]\<rparr>"
    using assms(2) by (simp add: enqueue_p1_def Let_def)
  show "pending (enqueue_p1 E a s) = pending s @
           [\<lparr>QueueItem.addr = a, flush_time = millis E (effects s) + ucast (time_limit s)\<rparr>]"
    unfolding e using pending_append(1)[OF assms(1) lt] by (simp only: pending_effects)
  show "queue_ok (enqueue_p1 E a s)"
    unfolding e using pending_append(2)[OF assms(1) lt] by (simp only: queue_ok_effects)
  show "flush_calls_p1 (enqueue_p1 E a s) = flush_calls_p1 s"
    unfolding e by simp
qed

lemma enqueue_p1_full:
  assumes "queue_ok s" "key_queue_length s = QUKEYS_QUEUE_MAX s"
  shows "\<exists>n<length (pending s). \<exists>t.
           pending (enqueue_p1 E a s) = drop (Suc n) (pending s) @
             [\<lparr>QueueItem.addr = a, flush_time = t + ucast (time_limit s)\<rparr>] \<and>
           flush_calls_p1 (enqueue_p1 E a s) = flush_calls_p1 s @
             map (\<lambda>q. \<lparr>fc_item = q, fc_role = QUKEY_STATE_PRIMARY_p1,
                          fc_keyswitch = IS_PRESSED OR WAS_PRESSED\<rparr>) (take (Suc n) (pending s))"
    and "queue_ok (enqueue_p1 E a s)"
proof -
  let ?s0 = "flushKey_p1 E QUKEY_STATE_PRIMARY_p1 (IS_PRESSED OR WAS_PRESSED) s"
  let ?s1 = "flushQueue_void_p1 E ?s0"
  have pos: "0 < key_queue_length s" using assms by (simp add: queue_ok_def)
  have ne: "pending s \<noteq> []" using assms(1) pos pending_length[of s] by auto
  have ok0: "queue_ok ?s0" using assms(1) pos by (rule flushKey_p1_ok)
  have p0: "pending ?s0 = tl (pending s)" using assms(1) pos by (rule flushKey_p1_pending)
  have c0: "flush_calls_p1 ?s0 = flush_calls_p1 s @
       [\<lparr>fc_item = hd (pending s), fc_role = QUKEY_STATE_PRIMARY_p1,
         fc_keyswitch = IS_PRESSED OR WAS_PRESSED\<rparr>]"
    using assms(1) pos by (rule flushKey_p1_calls_hd)
  from flushQueue_void_p1_run[OF ok0, of E] obtain n where n:
    "n \<le> length (pending ?s0)" "queue_ok ?s1" "pending ?s1 = drop n (pending ?s0)"
    "time_limit ?s1 = time_limit ?s0"
    "flush_calls_p1 ?s1 = flush_calls_p1 ?s0 @
       map (\<lambda>q. \<lparr>fc_item = q, fc_role = QUKEY_STATE_PRIMARY_p1,
                    fc_keyswitch = IS_PRESSED OR WAS_PRESSED\<rparr>) (take n (pending ?s0))"
    by auto
  have cap: "QUKEYS_QUEUE_MAX ?s1 = QUKEYS_QUEUE_MAX s"
    by simp
  have len1: "key_queue_length ?s1 = length (pending s) - Suc n"
    using pending_length[OF n(2)] n(3) p0 by (simp add: drop_Suc[symmetric] drop_tl)
  have lt: "key_queue_length ?s1 < QUKEYS_QUEUE_MAX ?s1"
    using len1 cap assms pending_length[OF assms(1)] pos by simp
  have e: "enqueue_p1 E a s =
     (?s1\<lparr>key_queue := (key_queue ?s1)[key_queue_length ?s1 :=
            \<lparr>QueueItem.addr = a, flush_time = millis E (effects ?s1) + ucast (time_limit ?s1)\<rparr>],
         key_queue_length := (key_queue_length ?s1 + 1) mod 256\<rparr>)\<lparr>effects := effects ?s1 @ [maskKey a]\<rparr>"
    using assms(2) by (simp add: enqueue_p1_def Let_def)
  have t: "take (Suc n) (pending s) = hd (pending s) # take n (tl (pending s))"
    using ne by (cases "pending s") simp_all
  have nl: "n < length (pending s)" using n(1) ne unfolding p0 by (cases "pending s") simp_all
  show "queue_ok (enqueue_p1 E a s)"
    unfolding e using pending_append(2)[OF n(2) lt] by (simp only: queue_ok_effects)
  have pe: "pending (enqueue_p1 E a s) = drop (Suc n) (pending s) @
             [\<lparr>QueueItem.addr = a, flush_time = millis E (effects ?s1) + ucast (time_limit s)\<rparr>]"
    unfolding e using pending_append(1)[OF n(2) lt] n(3) n(4) p0
    by (simp add: drop_Suc)
  have ce: "flush_calls_p1 (enqueue_p1 E a s) = flush_calls_p1 s @
             map (\<lambda>q. \<lparr>fc_item = q, fc_role = QUKEY_STATE_PRIMARY_p1,
                          fc_keyswitch = IS_PRESSED OR WAS_PRESSED\<rparr>) (take (Suc n) (pending s))"
    unfolding e using n(5) c0 p0 t by simp
  show "\<exists>n<length (pending s). \<exists>t.
           pending (enqueue_p1 E a s) = drop (Suc n) (pending s) @
             [\<lparr>QueueItem.addr = a, flush_time = t + ucast (time_limit s)\<rparr>] \<and>
           flush_calls_p1 (enqueue_p1 E a s) = flush_calls_p1 s @
             map (\<lambda>q. \<lparr>fc_item = q, fc_role = QUKEY_STATE_PRIMARY_p1,
                          fc_keyswitch = IS_PRESSED OR WAS_PRESSED\<rparr>) (take (Suc n) (pending s))"
    using nl pe ce by blast
qed

lemma eventHandlerHook_ok:
  assumes "queue_ok s"
  shows "queue_ok (snd (snd (eventHandlerHook E mapped_key key_state key_addr s)))"
proof -
  have enq: "queue_ok (enqueue_p1 E key_addr s)"
    using assms enqueue_p1_full(2)[of s E key_addr] enqueue_p1_not_full(2)[of s E key_addr] by blast
  have fl: "queue_ok (flushQueue_p1 E (Some k) s)" if "searchQueue s key_addr = Some k" for k
    using assms that searchQueue_Some(1)[OF assms that] by (simp add: flushQueue_p1_run(1))
  show ?thesis
    using assms enq fl by (auto simp: eventHandlerHook_def Let_def split: option.splits)
qed

lemma preReportHook_loop_p1_run:
  "queue_ok s \<Longrightarrow>
   \<exists>calls.
     length calls \<le> length (pending s) \<and>
     queue_ok (preReportHook_loop_p1 E t s) \<and>
     pending (preReportHook_loop_p1 E t s) = drop (length calls) (pending s) \<and>
     flush_calls_p1 (preReportHook_loop_p1 E t s) = flush_calls_p1 s @ calls \<and>
     map fc_item calls = take (length calls) (pending s) \<and>
     (\<forall>c\<in>set calls. fc_keyswitch c = IS_PRESSED OR WAS_PRESSED \<and>
        (fc_role c = QUKEY_STATE_ALTERNATE_p1 \<longrightarrow> flush_time (fc_item c) < t))"
proof (induction E t s rule: preReportHook_loop_p1.induct)
  case (1 E t s)
  let ?head = "slot (key_queue s) (past_key_queue s) 0"
  let ?plain = "lookupQukey_p1 E s (QueueItem.addr ?head) = None"
  let ?due = "flush_time ?head < t"
  show ?case
  proof (cases "0 < key_queue_length s \<and> (?plain \<or> ?due)")
    case False
    then have "preReportHook_loop_p1 E t s = s"
      by (subst preReportHook_loop_p1.simps) auto
    then show ?thesis using "1.prems" by (intro exI[of _ "[]"]) simp
  next
    case True
    define r where "r = (if ?plain then QUKEY_STATE_PRIMARY_p1 else QUKEY_STATE_ALTERNATE_p1)"
    let ?s1 = "flushKey_p1 E r (IS_PRESSED OR WAS_PRESSED) s"
    have pos: "0 < key_queue_length s" using True by simp
    have ok1: "queue_ok ?s1" using "1.prems" pos by (rule flushKey_p1_ok)
    have step: "preReportHook_loop_p1 E t s = preReportHook_loop_p1 E t ?s1"
      using True by (subst preReportHook_loop_p1.simps) (auto simp: r_def)
    have p1: "pending ?s1 = tl (pending s)" using "1.prems" pos by (rule flushKey_p1_pending)
    have c1: "flush_calls_p1 ?s1 = flush_calls_p1 s @
       [\<lparr>fc_item = hd (pending s), fc_role = r, fc_keyswitch = IS_PRESSED OR WAS_PRESSED\<rparr>]"
      using "1.prems" pos by (rule flushKey_p1_calls_hd)
    have ne: "pending s \<noteq> []" using "1.prems" pos pending_length[of s] by auto
    have hd: "?head = hd (pending s)" using "1.prems" pos by (rule slot_0_hd)
    have IH: "\<exists>calls.
       length calls \<le> length (pending ?s1) \<and>
       queue_ok (preReportHook_loop_p1 E t ?s1) \<and>
       pending (preReportHook_loop_p1 E t ?s1) = drop (length calls) (pending ?s1) \<and>
       flush_calls_p1 (preReportHook_loop_p1 E t ?s1) = flush_calls_p1 ?s1 @ calls \<and>
       map fc_item calls = take (length calls) (pending ?s1) \<and>
       (\<forall>c\<in>set calls. fc_keyswitch c = IS_PRESSED OR WAS_PRESSED \<and>
          (fc_role c = QUKEY_STATE_ALTERNATE_p1 \<longrightarrow> flush_time (fc_item c) < t))"
    proof (cases ?plain)
      case True
      have r: "r = QUKEY_STATE_PRIMARY_p1" using True by (simp add: r_def)
      show ?thesis unfolding r using "1.IH"(1)[OF pos True] ok1[unfolded r] by blast
    next
      case False
      with \<open>0 < key_queue_length s \<and> (?plain \<or> ?due)\<close> have due: "?due" by simp
      have r: "r = QUKEY_STATE_ALTERNATE_p1" using False by (auto simp: r_def)
      show ?thesis unfolding r using "1.IH"(2)[OF pos False due] ok1[unfolded r] by blast
    qed
    then obtain calls where calls:
      "length calls \<le> length (pending ?s1)"
      "queue_ok (preReportHook_loop_p1 E t ?s1)"
      "pending (preReportHook_loop_p1 E t ?s1) = drop (length calls) (pending ?s1)"
      "flush_calls_p1 (preReportHook_loop_p1 E t ?s1) = flush_calls_p1 ?s1 @ calls"
      "map fc_item calls = take (length calls) (pending ?s1)"
      "\<forall>c\<in>set calls. fc_keyswitch c = IS_PRESSED OR WAS_PRESSED \<and>
          (fc_role c = QUKEY_STATE_ALTERNATE_p1 \<longrightarrow> flush_time (fc_item c) < t)"
      by blast
    let ?c = "\<lparr>fc_item = hd (pending s), fc_role = r, fc_keyswitch = IS_PRESSED OR WAS_PRESSED\<rparr>"
    have first: "fc_role ?c = QUKEY_STATE_ALTERNATE_p1 \<longrightarrow> flush_time (fc_item ?c) < t"
      using True hd by (auto simp: r_def QUKEY_STATE_PRIMARY_p1_def QUKEY_STATE_ALTERNATE_p1_def)
    have t: "take (Suc (length calls)) (pending s) = hd (pending s) # take (length calls) (tl (pending s))"
      using ne by (cases "pending s") simp_all
    show ?thesis
    proof (intro exI[of _ "?c # calls"] conjI)
      show "length (?c # calls) \<le> length (pending s)"
        using calls(1) ne unfolding p1 by (cases "pending s") simp_all
      show "queue_ok (preReportHook_loop_p1 E t s)" unfolding step by (rule calls(2))
      show "pending (preReportHook_loop_p1 E t s) = drop (length (?c # calls)) (pending s)"
        unfolding step calls(3) p1 by (simp add: drop_Suc)
      show "flush_calls_p1 (preReportHook_loop_p1 E t s) = flush_calls_p1 s @ ?c # calls"
        unfolding step calls(4) c1 by simp
      show "map fc_item (?c # calls) = take (length (?c # calls)) (pending s)"
        using calls(5) t unfolding p1 by simp
      show "\<forall>c\<in>set (?c # calls). fc_keyswitch c = IS_PRESSED OR WAS_PRESSED \<and>
          (fc_role c = QUKEY_STATE_ALTERNATE_p1 \<longrightarrow> flush_time (fc_item c) < t)"
        using calls(6) first by simp
    qed
  qed
qed

lemma full_queue_shift_reads_capacity:
  "key_queue_length s = QUKEYS_QUEUE_MAX s \<Longrightarrow> 0 < key_queue_length s \<Longrightarrow>
   QUKEYS_QUEUE_MAX s \<in> set (shift_reads (flushKey E r k s)) \<and>
   QUKEYS_QUEUE_MAX s' = key_queue_length s' \<longrightarrow> 0 < key_queue_length s' \<longrightarrow>
   QUKEYS_QUEUE_MAX s' \<in> set (shift_reads (flushKey_p1 E r' k s'))"
  by (auto simp: flushKey_reads flushKey_p1_reads)

lemma keyToggledOff_not_On: "keyToggledOff key_state \<Longrightarrow> \<not> keyToggledOn key_state"
  by (simp add: keyToggledOn_def keyToggledOff_def)

lemma lookupQukey_from_Some:
  "lookupQukey_from E s a i = Some k \<Longrightarrow> k < length (qukeys s) \<and> Qukey.addr (qukeys s ! k) = a"
proof (induction E s a i rule: lookupQukey_from.induct)
  case (1 E s a i)
  then show ?case
    by (subst (asm) (2) lookupQukey_from.simps) (auto simp: qukeys_count_def Let_def split: if_splits)
qed

lemma lookupQukey_Some:
  "lookupQukey E s a = Some k \<Longrightarrow> k < length (qukeys s) \<and> Qukey.addr (qukeys s ! k) = a"
  using lookupQukey_from_Some[of E s a 0 k] by (simp add: lookupQukey_def split: if_splits)

lemma set_state_qukeys:
  "k < length (qukeys s) \<Longrightarrow> state (qukeys (set_state k st s) ! k) = st"
  "j \<noteq> k \<Longrightarrow> qukeys (set_state k st s) ! j = qukeys s ! j"
  by (simp_all add: set_state_def)

lemma searchQueue_from_None:
  "searchQueue_from s a i = None \<Longrightarrow>
   \<forall>j. i \<le> j \<and> j < key_queue_length s \<longrightarrow>
       QueueItem.addr (slot (key_queue s) (past_key_queue s) j) \<noteq> a"
proof (induction s a i rule: searchQueue_from.induct)
  case (1 s a i)
  show ?case
  proof (cases "i < key_queue_length s")
    case False
    then show ?thesis by auto
  next
    case True
    from "1.prems" True have ne: "QueueItem.addr (slot (key_queue s) (past_key_queue s) i) \<noteq> a"
      and rest: "searchQueue_from s a (i + 1) = None"
      by (subst (asm) searchQueue_from.simps, simp split: if_splits)+
    from "1.IH"[OF True ne rest] ne show ?thesis
      by (metis Suc_eq_plus1 Suc_leI le_neq_implies_less)
  qed
qed

lemma searchQueue_finds:
  assumes "queue_ok s" "q \<in> set (pending s)"
  shows "searchQueue s (QueueItem.addr q) \<noteq> None"
proof
  assume n: "searchQueue s (QueueItem.addr q) = None"
  from assms(2) obtain j where j: "j < length (pending s)" "pending s ! j = q"
    by (auto simp: in_set_conv_nth)
  then have jl: "j < key_queue_length s" using assms(1) by (simp add: pending_length)
  from searchQueue_from_None[of s "QueueItem.addr q" 0] n jl
  have "QueueItem.addr (slot (key_queue s) (past_key_queue s) j) \<noteq> QueueItem.addr q"
    by (simp add: searchQueue_def)
  then show False using slot_pending[OF assms(1) jl] j(2) by simp
qed

lemma enqueue_appends:
  assumes "queue_ok s"
  shows "\<exists>t. pending (enqueue E a s) =
           (if key_queue_length s = QUKEYS_QUEUE_MAX s then tl (pending s) else pending s) @
           [\<lparr>QueueItem.addr = a, flush_time = t + ucast (time_limit s)\<rparr>]"
  using enqueue_full(1)[OF assms, of E a] enqueue_not_full(1)[OF assms, of E a]
  by (cases "key_queue_length s = QUKEYS_QUEUE_MAX s") auto

lemma enqueue_p1_appends:
  assumes "queue_ok s"
  shows "\<exists>n t. pending (enqueue_p1 E a s) = drop n (pending s) @
           [\<lparr>QueueItem.addr = a, flush_time = t + ucast (time_limit s)\<rparr>]"
proof (cases "key_queue_length s = QUKEYS_QUEUE_MAX s")
  case True
  from enqueue_p1_full(1)[OF assms True, of E a] show ?thesis by blast
next
  case False
  from enqueue_p1_not_full(1)[OF assms False, of E a] show ?thesis
    by (intro exI[of _ 0] exI[of _ "millis E (effects s)"]) simp
qed

lemma press_enqueues_and_suppresses_p1:
  assumes "key_state AND INJECTED = 0" and "keyToggledOn key_state" and "active s"
    and "key_queue_length s \<noteq> 0 \<or> lookupQukey_p1 E s key_addr \<noteq> None"
  shows "eventHandlerHook E mapped_key key_state key_addr s
           = (False, Key_NoKey, enqueue_p1 E key_addr s)"
proof -
  have "keyIsPressed key_state" using assms(2) by (simp add: keyToggledOn_def)
  then show ?thesis using assms by (auto simp: eventHandlerHook_def Let_def)
qed

lemma press_enqueues_and_suppresses:
  assumes "key_state AND INJECTED = 0" and "keyToggledOn key_state" and "active s"
    and "queue_ok s"
    and "key_queue_length s \<noteq> 0 \<or> lookupQukey E s (addr_addr E row col) \<noteq> None"
    and "\<forall>i. lookupQukey E s (addr_addr E row col) = Some i \<longrightarrow>
           state (qukeys (enqueue E (addr_addr E row col) s) ! i) = QUKEY_STATE_UNDETERMINED"
  shows "keyScanHook E mapped_key row col key_state s
           = (Key_NoKey, enqueue E (addr_addr E row col) s)"
proof -
  let ?a = "addr_addr E row col"
  have on: "keyIsPressed key_state" "\<not> keyToggledOff key_state"
    using assms(2) by (simp_all add: keyToggledOn_def keyToggledOff_def)
  have ok: "queue_ok (enqueue E ?a s)"
    using assms(4) enqueue_full(2)[of s E ?a] enqueue_not_full(2)[of s E ?a] by blast
  from enqueue_appends[OF assms(4), of E ?a] obtain t where
    t: "pending (enqueue E ?a s) =
           (if key_queue_length s = QUKEYS_QUEUE_MAX s then tl (pending s) else pending s) @
           [\<lparr>QueueItem.addr = ?a, flush_time = t + ucast (time_limit s)\<rparr>]"
    by blast
  have "\<lparr>QueueItem.addr = ?a, flush_time = t + ucast (time_limit s)\<rparr> \<in> set (pending (enqueue E ?a s))"
    unfolding t by simp
  from searchQueue_finds[OF ok this] obtain k where k: "searchQueue (enqueue E ?a s) ?a = Some k"
    by auto
  show ?thesis
    using assms(1-3,5,6) on k by (auto simp: keyScanHook_def Let_def split: option.splits)
qed

lemma flushQueue_loop_capacity [simp]:
  "QUKEYS_QUEUE_MAX (flushQueue_loop E k s) = QUKEYS_QUEUE_MAX s"
  by (induction k arbitrary: s) simp_all

lemma flushQueue_loop_p1_capacity [simp]:
  "QUKEYS_QUEUE_MAX (flushQueue_loop_p1 E k s) = QUKEYS_QUEUE_MAX s"
  by (induction k arbitrary: s) simp_all

lemma flushQueue_capacity [simp]: "QUKEYS_QUEUE_MAX (flushQueue E i s) = QUKEYS_QUEUE_MAX s"
  by (simp add: flushQueue_def split: option.splits)

lemma flushQueue_p1_capacity [simp]: "QUKEYS_QUEUE_MAX (flushQueue_p1 E i s) = QUKEYS_QUEUE_MAX s"
  by (simp add: flushQueue_p1_def split: option.splits)

lemma enqueue_capacity [simp]: "QUKEYS_QUEUE_MAX (enqueue E a s) = QUKEYS_QUEUE_MAX s"
proof -
  have "length (key_queue (enqueue E a s)) =
        length (key_queue (if key_queue_length s = QUKEYS_QUEUE_MAX s
           then flushKey E QUKEY_STATE_PRIMARY (IS_PRESSED OR WAS_PRESSED) s else s))"
    by (simp add: enqueue_def Let_def)
  then show ?thesis
    using flushKey_capacity[of E QUKEY_STATE_PRIMARY "IS_PRESSED OR WAS_PRESSED" s]
    by (simp add: QUKEYS_QUEUE_MAX_def split: if_splits)
qed

lemma enqueue_p1_capacity [simp]: "QUKEYS_QUEUE_MAX (enqueue_p1 E a s) = QUKEYS_QUEUE_MAX s"
proof -
  have "length (key_queue (enqueue_p1 E a s)) =
        length (key_queue (if key_queue_length s = QUKEYS_QUEUE_MAX s
           then flushQueue_void_p1 E
                  (flushKey_p1 E QUKEY_STATE_PRIMARY_p1 (IS_PRESSED OR WAS_PRESSED) s) else s))"
    by (simp add: enqueue_p1_def Let_def)
  then show ?thesis
    using flushQueue_void_p1_capacity[of E
        "flushKey_p1 E QUKEY_STATE_PRIMARY_p1 (IS_PRESSED OR WAS_PRESSED) s"]
      flushKey_p1_capacity[of E QUKEY_STATE_PRIMARY_p1 "IS_PRESSED OR WAS_PRESSED" s]
    by (simp add: QUKEYS_QUEUE_MAX_def split: if_splits)
qed

lemma keyScanHook_capacity [simp]:
  "QUKEYS_QUEUE_MAX (snd (keyScanHook E mapped_key row col key_state s)) = QUKEYS_QUEUE_MAX s"
  by (simp add: keyScanHook_def Let_def split: option.splits)

lemma eventHandlerHook_capacity [simp]:
  "QUKEYS_QUEUE_MAX (snd (snd (eventHandlerHook E mapped_key key_state key_addr s)))
     = QUKEYS_QUEUE_MAX s"
  by (simp add: eventHandlerHook_def Let_def split: option.splits)

lemma preReportHook_loop_capacity [simp]:
  "QUKEYS_QUEUE_MAX (preReportHook_loop E t i s) = QUKEYS_QUEUE_MAX s"
proof (induction E t i s rule: preReportHook_loop.induct)
  case (1 E t i s)
  show ?case
  proof (cases "i < key_queue_length s \<and> flush_time (slot (key_queue s) (past_key_queue s) i) < t")
    case True
    then show ?thesis using "1.IH" by (subst preReportHook_loop.simps) simp
  next
    case False
    then show ?thesis by (subst preReportHook_loop.simps) auto
  qed
qed

lemma preReportHook_loop_p1_capacity [simp]:
  "QUKEYS_QUEUE_MAX (preReportHook_loop_p1 E t s) = QUKEYS_QUEUE_MAX s"
proof (induction E t s rule: preReportHook_loop_p1.induct)
  case (1 E t s)
  let ?plain = "lookupQukey_p1 E s (QueueItem.addr (slot (key_queue s) (past_key_queue s) 0)) = None"
  let ?due = "flush_time (slot (key_queue s) (past_key_queue s) 0) < t"
  consider (a) "0 < key_queue_length s" ?plain
    | (b) "0 < key_queue_length s" "\<not> ?plain" ?due
    | (c) "\<not> (0 < key_queue_length s \<and> (?plain \<or> ?due))"
    by auto
  then show ?case
  proof cases
    case a
    then show ?thesis using "1.IH"(1) by (subst preReportHook_loop_p1.simps) simp
  next
    case b
    then show ?thesis using "1.IH"(2) by (subst preReportHook_loop_p1.simps) auto
  next
    case c
    then show ?thesis by (subst preReportHook_loop_p1.simps) auto
  qed
qed

lemma preReportHook_ok: "queue_ok s \<Longrightarrow> queue_ok (preReportHook E s)"
  using preReportHook_loop_run[of s E "millis E (effects s)" 0]
  by (auto simp: preReportHook_def)

lemma preReportHook_p1_ok: "queue_ok s \<Longrightarrow> queue_ok (preReportHook_p1 E s)"
  using preReportHook_loop_p1_run[of s E "millis E (effects s)"]
  by (auto simp: preReportHook_p1_def)

lemma preReportHook_loop_p1_stops:
  "key_queue_length (preReportHook_loop_p1 E t s) = 0 \<or>
   (lookupQukey_p1 E (preReportHook_loop_p1 E t s)
      (QueueItem.addr (slot (key_queue (preReportHook_loop_p1 E t s))
                            (past_key_queue (preReportHook_loop_p1 E t s)) 0)) \<noteq> None \<and>
    \<not> flush_time (slot (key_queue (preReportHook_loop_p1 E t s))
                         (past_key_queue (preReportHook_loop_p1 E t s)) 0) < t)"
proof (induction E t s rule: preReportHook_loop_p1.induct)
  case (1 E t s)
  let ?plain = "lookupQukey_p1 E s (QueueItem.addr (slot (key_queue s) (past_key_queue s) 0)) = None"
  let ?due = "flush_time (slot (key_queue s) (past_key_queue s) 0) < t"
  consider (a) "0 < key_queue_length s" ?plain
    | (b) "0 < key_queue_length s" "\<not> ?plain" ?due
    | (c) "\<not> (0 < key_queue_length s \<and> (?plain \<or> ?due))"
    by auto
  then show ?case
  proof cases
    case a
    have "preReportHook_loop_p1 E t s = preReportHook_loop_p1 E t
            (flushKey_p1 E QUKEY_STATE_PRIMARY_p1 (IS_PRESSED OR WAS_PRESSED) s)"
      using a by (subst preReportHook_loop_p1.simps) simp
    then show ?thesis using "1.IH"(1)[OF a] by simp
  next
    case b
    have "preReportHook_loop_p1 E t s = preReportHook_loop_p1 E t
            (flushKey_p1 E QUKEY_STATE_ALTERNATE_p1 (IS_PRESSED OR WAS_PRESSED) s)"
      using b by (subst preReportHook_loop_p1.simps) auto
    then show ?thesis using "1.IH"(2)[OF b] by simp
  next
    case c
    then have "preReportHook_loop_p1 E t s = s"
      by (subst preReportHook_loop_p1.simps) auto
    then show ?thesis using c by auto
  qed
qed


lemma flushKey_effects:
  "effects (flushKey E r k s) = effects s @
     [save_keyReport, load_lastKeyReport,
      handleKeyswitchEvent_rc
        (case lookupQukey E s (QueueItem.addr (slot (key_queue s) (past_key_queue s) 0)) of
           None \<Rightarrow> Layer_lookup_rc E (effects s)
                     (addr_row E (QueueItem.addr (slot (key_queue s) (past_key_queue s) 0)))
                     (addr_col E (QueueItem.addr (slot (key_queue s) (past_key_queue s) 0)))
         | Some i \<Rightarrow>
             (case r of
                QUKEY_STATE_PRIMARY \<Rightarrow> Layer_lookup_rc E (effects s)
                     (addr_row E (QueueItem.addr (slot (key_queue s) (past_key_queue s) 0)))
                     (addr_col E (QueueItem.addr (slot (key_queue s) (past_key_queue s) 0)))
              | QUKEY_STATE_ALTERNATE \<Rightarrow> alt_keycode (qukeys s ! i)
              | QUKEY_STATE_UNDETERMINED \<Rightarrow> Key_NoKey))
        (addr_row E (QueueItem.addr (slot (key_queue s) (past_key_queue s) 0)))
        (addr_col E (QueueItem.addr (slot (key_queue s) (past_key_queue s) 0)))
        (IS_PRESSED OR INJECTED),
      sendKeyboardReport, restore_keyReport]"
  by (simp add: flushKey_def Let_def set_state_def split: option.splits)

lemma flushKey_p1_effects:
  "effects (flushKey_p1 E r k s) =
     (let head_addr = QueueItem.addr (slot (key_queue s) (past_key_queue s) 0);
          w = effects s @ [unMaskKey head_addr];
          qukey_index = lookupQukey_p1 E (s\<lparr>effects := w\<rparr>) head_addr;
          keycode = (if r = QUKEY_STATE_ALTERNATE_p1 \<and> qukey_index \<noteq> None
                     then alt_keycode (qukeys_p1 s ! the qukey_index)
                     else Layer_lookup E w head_addr)
      in w @ [save_keyReport, load_lastKeyReport,
              handleKeyswitchEvent keycode head_addr (IS_PRESSED OR INJECTED),
              sendKeyboardReport, restore_keyReport] @
         (if \<not> keyToggledOn k
          then [handleKeyswitchEvent keycode head_addr (IS_PRESSED OR WAS_PRESSED OR INJECTED)]
          else []))"
  by (simp add: flushKey_p1_def Let_def setQukeyState_def)

lemma sorted_tl_deadlines:
  "sorted (map flush_time q) \<Longrightarrow> sorted (map flush_time (tl q))"
  by (cases q) simp_all

lemma sorted_drop_deadlines:
  "sorted (map flush_time q) \<Longrightarrow> sorted (map flush_time (drop n q))"
  by (simp add: sorted_wrt_drop drop_map[symmetric])

lemma sorted_snoc_deadlines:
  "sorted (map flush_time q) \<Longrightarrow> \<forall>x\<in>set q. flush_time x \<le> flush_time y \<Longrightarrow>
   sorted (map flush_time (q @ [y]))"
  by (simp add: sorted_append)

text \<open>
  What holds of the order of the queue. \<^verbatim>\<open>flushKey\<close> on a queue that is not empty removes
  the head and keeps the rest, so it keeps deadlines sorted; \<^verbatim>\<open>enqueue\<close> keeps them
  sorted when the deadline it computes is not below the ones already queued.
\<close>

lemma flushKey_removes_head_keeps_order:
  assumes "queue_ok s" and "0 < key_queue_length s" and "queue_ok s'" and "0 < key_queue_length s'"
  shows "pending (flushKey E r k s) = tl (pending s)"
    and "pending (flushKey_p1 E r' k s') = tl (pending s')"
    and "sorted (map flush_time (pending s)) \<Longrightarrow> sorted (map flush_time (pending (flushKey E r k s)))"
    and "sorted (map flush_time (pending s')) \<Longrightarrow>
         sorted (map flush_time (pending (flushKey_p1 E r' k s')))"
  using assms by (simp_all add: flushKey_pending flushKey_p1_pending sorted_tl_deadlines)

lemma enqueue_keeps_order_without_wrap:
  assumes "queue_ok s" and "sorted (map flush_time (pending s))"
    and "\<forall>q\<in>set (pending s). flush_time q \<le>
           millis E (effects (if key_queue_length s = QUKEYS_QUEUE_MAX s
                              then flushKey E QUKEY_STATE_PRIMARY (IS_PRESSED OR WAS_PRESSED) s
                              else s)) + ucast (time_limit s)"
  shows "sorted (map flush_time (pending (enqueue E a s)))"
proof (cases "key_queue_length s = QUKEYS_QUEUE_MAX s")
  case True
  have sub: "set (tl (pending s)) \<subseteq> set (pending s)" by (cases "pending s") auto
  show ?thesis
    unfolding enqueue_full(1)[OF assms(1) True]
    using assms(2,3) True sub
    by (intro sorted_snoc_deadlines sorted_tl_deadlines) auto
next
  case False
  show ?thesis
    unfolding enqueue_not_full(1)[OF assms(1) False]
    using assms(2,3) False
    by (intro sorted_snoc_deadlines) auto
qed

text \<open>
  What one call of \<^verbatim>\<open>flushKey\<close> does to the registry, to the stored resolutions and to
  the world outside, and what a run of such calls does to the queue. A loop of the source
  that calls \<^verbatim>\<open>flushKey\<close> with the same arguments in every round is that many
  iterations of the function.
\<close>

lemma qukeys_shift_queue [simp]: "qukeys (shift_queue s) = qukeys s"
  by (simp add: shift_queue_def Let_def)

lemma flushKey_qukeys:
  "qukeys (flushKey E r k s) =
     (case lookupQukey E s (QueueItem.addr (slot (key_queue s) (past_key_queue s) 0)) of
        None \<Rightarrow> qukeys s
      | Some i \<Rightarrow> (qukeys s)[i := (qukeys s ! i)\<lparr>state :=
                     (if k AND IS_PRESSED = 0 then QUKEY_STATE_UNDETERMINED else r)\<rparr>])"
proof (cases "lookupQukey E s (QueueItem.addr (slot (key_queue s) (past_key_queue s) 0))")
  case None
  then show ?thesis by (simp add: flushKey_def Let_def)
next
  case (Some i)
  then have "i < length (qukeys s)" using lookupQukey_Some by blast
  then show ?thesis using Some
    by (simp add: flushKey_def Let_def set_state_def)
qed

lemma flushKey_p1_state:
  "qukey_state_p1 (flushKey_p1 E r k s) =
     (let head_addr = QueueItem.addr (slot (key_queue s) (past_key_queue s) 0)
      in if lookupQukey_p1 E (s\<lparr>effects := effects s @ [unMaskKey head_addr]\<rparr>) head_addr = None
         then qukey_state_p1 s
         else (qukey_state_p1 s)(head_addr := r))"
  by (simp add: flushKey_p1_def Let_def setQukeyState_def shift_queue_def)

lemma flushKey_funpow:
  "queue_ok s \<Longrightarrow> n \<le> key_queue_length s \<Longrightarrow>
   queue_ok ((flushKey E r k ^^ n) s) \<and>
   pending ((flushKey E r k ^^ n) s) = drop n (pending s) \<and>
   key_queue_length ((flushKey E r k ^^ n) s) = key_queue_length s - n"
proof (induction n)
  case 0
  then show ?case by simp
next
  case (Suc n)
  let ?v = "(flushKey E r k ^^ n) s"
  have IH: "queue_ok ?v" "pending ?v = drop n (pending s)"
    "key_queue_length ?v = key_queue_length s - n"
    using Suc by simp_all
  have pos: "0 < key_queue_length ?v" using IH(3) Suc.prems by simp
  show ?case
    using IH pos by (simp add: flushKey_ok flushKey_pending flushKey_length drop_Suc tl_drop)
qed

lemma flushKey_p1_funpow:
  "queue_ok s \<Longrightarrow> n \<le> key_queue_length s \<Longrightarrow>
   queue_ok ((flushKey_p1 E r k ^^ n) s) \<and>
   pending ((flushKey_p1 E r k ^^ n) s) = drop n (pending s) \<and>
   key_queue_length ((flushKey_p1 E r k ^^ n) s) = key_queue_length s - n"
proof (induction n)
  case 0
  then show ?case by simp
next
  case (Suc n)
  let ?v = "(flushKey_p1 E r k ^^ n) s"
  have IH: "queue_ok ?v" "pending ?v = drop n (pending s)"
    "key_queue_length ?v = key_queue_length s - n"
    using Suc by simp_all
  have pos: "0 < key_queue_length ?v" using IH(3) Suc.prems by simp
  show ?case
    using IH pos by (simp add: flushKey_p1_ok flushKey_p1_pending flushKey_p1_length drop_Suc tl_drop)
qed

lemma flushQueue_loop_funpow:
  "k \<le> key_queue_length s \<Longrightarrow>
   flushQueue_loop E k s = (flushKey E QUKEY_STATE_ALTERNATE (IS_PRESSED OR WAS_PRESSED) ^^ k) s"
proof (induction k arbitrary: s)
  case 0
  then show ?case by simp
next
  case (Suc k)
  then show ?case by (simp add: flushKey_length funpow_swap1)
qed

lemma flushQueue_loop_p1_funpow:
  "k \<le> key_queue_length s \<Longrightarrow>
   flushQueue_loop_p1 E k s
     = (flushKey_p1 E QUKEY_STATE_ALTERNATE_p1 (IS_PRESSED OR WAS_PRESSED) ^^ k) s"
proof (induction k arbitrary: s)
  case 0
  then show ?case by simp
next
  case (Suc k)
  then show ?case by (simp add: flushKey_p1_length funpow_swap1)
qed


lemma flushQueue_void_p1_funpow:
  "queue_ok s \<Longrightarrow>
   \<exists>n\<le>key_queue_length s.
     flushQueue_void_p1 E s
       = (flushKey_p1 E QUKEY_STATE_PRIMARY_p1 (IS_PRESSED OR WAS_PRESSED) ^^ n) s \<and>
     (\<forall>j<n. lookupQukey_p1 E
               ((flushKey_p1 E QUKEY_STATE_PRIMARY_p1 (IS_PRESSED OR WAS_PRESSED) ^^ j) s)
               (QueueItem.addr (pending s ! j)) = None) \<and>
     (n = key_queue_length s \<or>
      lookupQukey_p1 E
        ((flushKey_p1 E QUKEY_STATE_PRIMARY_p1 (IS_PRESSED OR WAS_PRESSED) ^^ n) s)
        (QueueItem.addr (pending s ! n)) \<noteq> None)"
proof (induction E s rule: flushQueue_void_p1.induct)
  case (1 E s)
  let ?f = "flushKey_p1 E QUKEY_STATE_PRIMARY_p1 (IS_PRESSED OR WAS_PRESSED)"
  let ?go = "0 < key_queue_length s \<and>
     lookupQukey_p1 E s (QueueItem.addr (slot (key_queue s) (past_key_queue s) 0)) = None"
  have len: "length (pending s) = key_queue_length s" using "1.prems" by (rule pending_length)
  show ?case
  proof (cases ?go)
    case False
    then have "flushQueue_void_p1 E s = s"
      by (subst flushQueue_void_p1.simps) auto
    moreover have "0 = key_queue_length s \<or>
        lookupQukey_p1 E s (QueueItem.addr (pending s ! 0)) \<noteq> None"
      using False slot_pending[OF "1.prems", of 0] by auto
    ultimately show ?thesis by (intro exI[of _ 0]) simp
  next
    case True
    let ?s1 = "?f s"
    have pos: "0 < key_queue_length s" using True by simp
    have ok1: "queue_ok ?s1" using "1.prems" pos by (rule flushKey_p1_ok)
    have step: "flushQueue_void_p1 E s = flushQueue_void_p1 E ?s1"
      using True by (subst flushQueue_void_p1.simps) simp
    have p1: "pending ?s1 = tl (pending s)" using "1.prems" pos by (rule flushKey_p1_pending)
    have l1: "key_queue_length ?s1 = key_queue_length s - 1"
      using pos by (simp add: flushKey_p1_length)
    have plain: "lookupQukey_p1 E s (QueueItem.addr (pending s ! 0)) = None"
      using True slot_pending[OF "1.prems", of 0] by auto
    from "1.IH"[OF True ok1] obtain n where n:
      "n \<le> key_queue_length ?s1"
      "flushQueue_void_p1 E ?s1 = (?f ^^ n) ?s1"
      "\<forall>j<n. lookupQukey_p1 E ((?f ^^ j) ?s1) (QueueItem.addr (pending ?s1 ! j)) = None"
      "n = key_queue_length ?s1 \<or>
       lookupQukey_p1 E ((?f ^^ n) ?s1) (QueueItem.addr (pending ?s1 ! n)) \<noteq> None"
      by auto
    have nth: "pending ?s1 ! m = pending s ! Suc m" if "m < key_queue_length ?s1" for m
      using that len l1 unfolding p1 by (simp add: nth_tl)
    have sw: "(?f ^^ m) ?s1 = (?f ^^ Suc m) s" for m by (simp add: funpow_swap1)
    have a: "\<forall>j<Suc n. lookupQukey_p1 E ((?f ^^ j) s) (QueueItem.addr (pending s ! j)) = None"
    proof (intro allI impI)
      fix j assume j: "j < Suc n"
      show "lookupQukey_p1 E ((?f ^^ j) s) (QueueItem.addr (pending s ! j)) = None"
      proof (cases j)
        case 0
        then show ?thesis using plain by simp
      next
        case (Suc j')
        then have jn: "j' < n" using j by simp
        then have "j' < key_queue_length ?s1" using n(1) by simp
        from nth[OF this] have e: "pending ?s1 ! j' = pending s ! Suc j'" .
        from n(3) jn have "lookupQukey_p1 E ((?f ^^ j') ?s1) (QueueItem.addr (pending ?s1 ! j')) = None"
          by blast
        then show ?thesis unfolding Suc sw[symmetric] e .
      qed
    qed
    have b: "Suc n = key_queue_length s \<or>
       lookupQukey_p1 E ((?f ^^ Suc n) s) (QueueItem.addr (pending s ! Suc n)) \<noteq> None"
    proof (cases "n = key_queue_length ?s1")
      case True
      then show ?thesis using l1 pos by simp
    next
      case False
      then have "n < key_queue_length ?s1" using n(1) by simp
      from nth[OF this] have e: "pending ?s1 ! n = pending s ! Suc n" .
      from n(4) False have "lookupQukey_p1 E ((?f ^^ n) ?s1) (QueueItem.addr (pending ?s1 ! n)) \<noteq> None"
        by blast
      then show ?thesis unfolding sw[symmetric] e by blast
    qed
    show ?thesis
    proof (intro exI[of _ "Suc n"] conjI)
      show "Suc n \<le> key_queue_length s" using n(1) l1 pos by simp
      show "flushQueue_void_p1 E s = (?f ^^ Suc n) s"
        unfolding step n(2) by (rule sw)
      show "\<forall>j<Suc n. lookupQukey_p1 E ((?f ^^ j) s) (QueueItem.addr (pending s ! j)) = None"
        by (rule a)
      show "Suc n = key_queue_length s \<or>
       lookupQukey_p1 E ((?f ^^ Suc n) s) (QueueItem.addr (pending s ! Suc n)) \<noteq> None"
        by (rule b)
    qed
  qed
qed



lemma flushKey_resolves:
  assumes "queue_ok s" "0 < key_queue_length s"
  shows "effects (flushKey E r k s) =
     (let a = QueueItem.addr (hd (pending s)) in
      effects s @
      [save_keyReport, load_lastKeyReport,
       handleKeyswitchEvent_rc
         (case lookupQukey E s a of
            None \<Rightarrow> Layer_lookup_rc E (effects s) (addr_row E a) (addr_col E a)
          | Some i \<Rightarrow>
              (case r of
                 QUKEY_STATE_PRIMARY \<Rightarrow> Layer_lookup_rc E (effects s) (addr_row E a) (addr_col E a)
               | QUKEY_STATE_ALTERNATE \<Rightarrow> alt_keycode (qukeys s ! i)
               | QUKEY_STATE_UNDETERMINED \<Rightarrow> Key_NoKey))
         (addr_row E a) (addr_col E a) (IS_PRESSED OR INJECTED),
       sendKeyboardReport, restore_keyReport])"
    and "qukeys (flushKey E r k s) =
     (case lookupQukey E s (QueueItem.addr (hd (pending s))) of
        None \<Rightarrow> qukeys s
      | Some i \<Rightarrow> (qukeys s)[i := (qukeys s ! i)\<lparr>state :=
                     (if k AND IS_PRESSED = 0 then QUKEY_STATE_UNDETERMINED else r)\<rparr>])"
  unfolding flushKey_effects flushKey_qukeys slot_0_hd[OF assms] Let_def by (rule refl)+

lemma flushKey_p1_resolves:
  assumes "queue_ok s" "0 < key_queue_length s"
  shows "effects (flushKey_p1 E r k s) =
     (let a = QueueItem.addr (hd (pending s));
          w = effects s @ [unMaskKey a];
          keycode = (case lookupQukey_p1 E (s\<lparr>effects := w\<rparr>) a of
                       None \<Rightarrow> Layer_lookup E w a
                     | Some i \<Rightarrow> if r = QUKEY_STATE_ALTERNATE_p1
                                 then alt_keycode (qukeys_p1 s ! i) else Layer_lookup E w a)
      in w @ [save_keyReport, load_lastKeyReport,
              handleKeyswitchEvent keycode a (IS_PRESSED OR INJECTED),
              sendKeyboardReport, restore_keyReport] @
         (if \<not> keyToggledOn k
          then [handleKeyswitchEvent keycode a (IS_PRESSED OR WAS_PRESSED OR INJECTED)]
          else []))"
    and "qukey_state_p1 (flushKey_p1 E r k s) =
     (let a = QueueItem.addr (hd (pending s)) in
      case lookupQukey_p1 E (s\<lparr>effects := effects s @ [unMaskKey a]\<rparr>) a of
        None \<Rightarrow> qukey_state_p1 s
      | Some i \<Rightarrow> (qukey_state_p1 s)(a := r))"
  unfolding flushKey_p1_effects flushKey_p1_state slot_0_hd[OF assms] Let_def
  by (auto split: option.splits)

lemma held_bits:
  "(IS_PRESSED OR WAS_PRESSED) AND IS_PRESSED \<noteq> 0" "WAS_PRESSED AND IS_PRESSED = 0"
  by (simp_all add: IS_PRESSED_def WAS_PRESSED_def)

lemma IS_PRESSED_nonzero: "IS_PRESSED \<noteq> 0"
  by (simp add: IS_PRESSED_def)

lemma flushKey_alternate_held:
  assumes "queue_ok s" "0 < key_queue_length s"
  shows "effects (flushKey E QUKEY_STATE_ALTERNATE (IS_PRESSED OR WAS_PRESSED) s) =
     effects s @
     [save_keyReport, load_lastKeyReport,
      handleKeyswitchEvent_rc
        (case lookupQukey E s (QueueItem.addr (hd (pending s))) of
           None \<Rightarrow> Layer_lookup_rc E (effects s)
                     (addr_row E (QueueItem.addr (hd (pending s))))
                     (addr_col E (QueueItem.addr (hd (pending s))))
         | Some i \<Rightarrow> alt_keycode (qukeys s ! i))
        (addr_row E (QueueItem.addr (hd (pending s))))
        (addr_col E (QueueItem.addr (hd (pending s)))) (IS_PRESSED OR INJECTED),
      sendKeyboardReport, restore_keyReport]"
    and "qukeys (flushKey E QUKEY_STATE_ALTERNATE (IS_PRESSED OR WAS_PRESSED) s) =
     (case lookupQukey E s (QueueItem.addr (hd (pending s))) of
        None \<Rightarrow> qukeys s
      | Some i \<Rightarrow> (qukeys s)[i := (qukeys s ! i)\<lparr>state := QUKEY_STATE_ALTERNATE\<rparr>])"
  unfolding flushKey_resolves[OF assms] Let_def
  by (simp_all add: IS_PRESSED_nonzero split: option.splits)

lemma flushKey_primary:
  assumes "queue_ok s" "0 < key_queue_length s"
  shows "effects (flushKey E QUKEY_STATE_PRIMARY k s) =
     effects s @
     [save_keyReport, load_lastKeyReport,
      handleKeyswitchEvent_rc
        (Layer_lookup_rc E (effects s)
           (addr_row E (QueueItem.addr (hd (pending s))))
           (addr_col E (QueueItem.addr (hd (pending s)))))
        (addr_row E (QueueItem.addr (hd (pending s))))
        (addr_col E (QueueItem.addr (hd (pending s)))) (IS_PRESSED OR INJECTED),
      sendKeyboardReport, restore_keyReport]"
    and "qukeys (flushKey E QUKEY_STATE_PRIMARY (IS_PRESSED OR WAS_PRESSED) s) =
     (case lookupQukey E s (QueueItem.addr (hd (pending s))) of
        None \<Rightarrow> qukeys s
      | Some i \<Rightarrow> (qukeys s)[i := (qukeys s ! i)\<lparr>state := QUKEY_STATE_PRIMARY\<rparr>])"
    and "qukeys (flushKey E QUKEY_STATE_PRIMARY WAS_PRESSED s) =
     (case lookupQukey E s (QueueItem.addr (hd (pending s))) of
        None \<Rightarrow> qukeys s
      | Some i \<Rightarrow> (qukeys s)[i := (qukeys s ! i)\<lparr>state := QUKEY_STATE_UNDETERMINED\<rparr>])"
  unfolding flushKey_resolves[OF assms] Let_def
  by (simp_all add: IS_PRESSED_nonzero held_bits split: option.splits)

lemma flushKey_p1_not_toggled_on:
  assumes "queue_ok s" "0 < key_queue_length s" "\<not> keyToggledOn k"
  shows "effects (flushKey_p1 E r k s) =
     (let a = QueueItem.addr (hd (pending s));
          w = effects s @ [unMaskKey a];
          keycode = (case lookupQukey_p1 E (s\<lparr>effects := w\<rparr>) a of
                       None \<Rightarrow> Layer_lookup E w a
                     | Some i \<Rightarrow> if r = QUKEY_STATE_ALTERNATE_p1
                                 then alt_keycode (qukeys_p1 s ! i) else Layer_lookup E w a)
      in w @ [save_keyReport, load_lastKeyReport,
              handleKeyswitchEvent keycode a (IS_PRESSED OR INJECTED),
              sendKeyboardReport, restore_keyReport,
              handleKeyswitchEvent keycode a (IS_PRESSED OR WAS_PRESSED OR INJECTED)])"
  unfolding flushKey_p1_resolves[OF assms(1,2)] Let_def using assms(3) by simp

lemma hd_pending_funpow:
  "pending v = drop n (pending s) \<Longrightarrow> n < length (pending s) \<Longrightarrow> hd (pending v) = pending s ! n"
  by (simp add: hd_drop_conv_nth)


lemma flushKey_p1_funpow_calls:
  "queue_ok s \<Longrightarrow> n \<le> key_queue_length s \<Longrightarrow>
   flush_calls_p1 ((flushKey_p1 E r k ^^ n) s) = flush_calls_p1 s @
     map (\<lambda>q. \<lparr>fc_item = q, fc_role = r, fc_keyswitch = k\<rparr>) (take n (pending s))"
proof (induction n)
  case 0
  then show ?case by simp
next
  case (Suc n)
  let ?v = "(flushKey_p1 E r k ^^ n) s"
  have le: "n \<le> key_queue_length s" using Suc.prems by simp
  note fp = flushKey_p1_funpow[OF Suc.prems(1) le, of E r k]
  have pos: "0 < key_queue_length ?v" using fp Suc.prems by simp
  have nl: "n < length (pending s)" using Suc.prems by (simp add: pending_length)
  have hd: "hd (pending ?v) = pending s ! n" using fp nl by (intro hd_pending_funpow) simp_all
  show ?case
    using Suc.IH[OF Suc.prems(1) le] fp pos nl
    by (simp add: flushKey_p1_calls_hd hd_drop_conv_nth take_Suc_conv_app_nth)
qed

lemma flushKey_p1_funpow_frame [simp]:
  "time_limit ((flushKey_p1 E r k ^^ n) s) = time_limit s"
  "QUKEYS_QUEUE_MAX ((flushKey_p1 E r k ^^ n) s) = QUKEYS_QUEUE_MAX s"
  by (induction n) simp_all

lemma flushKey_funpow_frame [simp]:
  "time_limit ((flushKey E r k ^^ n) s) = time_limit s"
  "QUKEYS_QUEUE_MAX ((flushKey E r k ^^ n) s) = QUKEYS_QUEUE_MAX s"
  by (induction n) simp_all

lemma enqueue_full_state:
  assumes "key_queue_length s = QUKEYS_QUEUE_MAX s"
  shows "effects (enqueue E a s)
           = effects (flushKey E QUKEY_STATE_PRIMARY (IS_PRESSED OR WAS_PRESSED) s)"
    and "qukeys (enqueue E a s)
           = qukeys (flushKey E QUKEY_STATE_PRIMARY (IS_PRESSED OR WAS_PRESSED) s)"
  using assms by (simp_all add: enqueue_def Let_def)

lemma enqueue_p1_full_run:
  assumes "queue_ok s" "key_queue_length s = QUKEYS_QUEUE_MAX s"
  shows "\<exists>n<length (pending s).
     (\<forall>j<n. lookupQukey_p1 E
               ((flushKey_p1 E QUKEY_STATE_PRIMARY_p1 (IS_PRESSED OR WAS_PRESSED) ^^ Suc j) s)
               (QueueItem.addr (pending s ! Suc j)) = None) \<and>
     (Suc n = length (pending s) \<or>
      lookupQukey_p1 E
        ((flushKey_p1 E QUKEY_STATE_PRIMARY_p1 (IS_PRESSED OR WAS_PRESSED) ^^ Suc n) s)
        (QueueItem.addr (pending s ! Suc n)) \<noteq> None) \<and>
     effects (enqueue_p1 E a s) =
       effects ((flushKey_p1 E QUKEY_STATE_PRIMARY_p1 (IS_PRESSED OR WAS_PRESSED) ^^ Suc n) s)
       @ [maskKey a] \<and>
     qukey_state_p1 (enqueue_p1 E a s) =
       qukey_state_p1
         ((flushKey_p1 E QUKEY_STATE_PRIMARY_p1 (IS_PRESSED OR WAS_PRESSED) ^^ Suc n) s) \<and>
     pending (enqueue_p1 E a s) = drop (Suc n) (pending s) @
       [\<lparr>QueueItem.addr = a,
         flush_time =
           millis E (effects
             ((flushKey_p1 E QUKEY_STATE_PRIMARY_p1 (IS_PRESSED OR WAS_PRESSED) ^^ Suc n) s))
           + ucast (time_limit s)\<rparr>] \<and>
     flush_calls_p1 (enqueue_p1 E a s) = flush_calls_p1 s @
       map (\<lambda>q. \<lparr>fc_item = q, fc_role = QUKEY_STATE_PRIMARY_p1,
                    fc_keyswitch = IS_PRESSED OR WAS_PRESSED\<rparr>) (take (Suc n) (pending s))"
proof -
  let ?f = "flushKey_p1 E QUKEY_STATE_PRIMARY_p1 (IS_PRESSED OR WAS_PRESSED)"
  let ?s0 = "?f s"
  have pos: "0 < key_queue_length s" using assms by (simp add: queue_ok_def)
  have len: "length (pending s) = key_queue_length s" using assms(1) by (rule pending_length)
  have ok0: "queue_ok ?s0" using assms(1) pos by (rule flushKey_p1_ok)
  have p0: "pending ?s0 = tl (pending s)" using assms(1) pos by (rule flushKey_p1_pending)
  have l0: "key_queue_length ?s0 = key_queue_length s - 1"
    using pos by (simp add: flushKey_p1_length)
  from flushQueue_void_p1_funpow[OF ok0, of E] obtain n where n:
    "n \<le> key_queue_length ?s0"
    "flushQueue_void_p1 E ?s0 = (?f ^^ n) ?s0"
    "\<forall>j<n. lookupQukey_p1 E ((?f ^^ j) ?s0) (QueueItem.addr (pending ?s0 ! j)) = None"
    "n = key_queue_length ?s0 \<or>
     lookupQukey_p1 E ((?f ^^ n) ?s0) (QueueItem.addr (pending ?s0 ! n)) \<noteq> None"
    by blast
  let ?u = "(?f ^^ Suc n) s"
  have sw: "(?f ^^ m) ?s0 = (?f ^^ Suc m) s" for m by (simp add: funpow_swap1)
  have nth: "pending ?s0 ! m = pending s ! Suc m" if "m < key_queue_length ?s0" for m
    using that len l0 unfolding p0 by (simp add: nth_tl)
  have nl: "n < length (pending s)" using n(1) l0 pos len by simp
  have le: "Suc n \<le> key_queue_length s" using nl len by simp
  note fp = flushKey_p1_funpow[OF assms(1) le, of E QUKEY_STATE_PRIMARY_p1 "IS_PRESSED OR WAS_PRESSED"]
  have oku: "queue_ok ?u" using fp by simp
  have lt: "key_queue_length ?u < QUKEYS_QUEUE_MAX ?u"
    using fp assms(2) pos by simp
  have e: "enqueue_p1 E a s =
     (?u\<lparr>key_queue := (key_queue ?u)[key_queue_length ?u :=
            \<lparr>QueueItem.addr = a, flush_time = millis E (effects ?u) + ucast (time_limit ?u)\<rparr>],
         key_queue_length := (key_queue_length ?u + 1) mod 256\<rparr>)\<lparr>effects := effects ?u @ [maskKey a]\<rparr>"
    using assms(2) unfolding sw[symmetric] n(2)[symmetric] by (simp add: enqueue_p1_def Let_def)
  have a1: "\<forall>j<n. lookupQukey_p1 E ((?f ^^ Suc j) s) (QueueItem.addr (pending s ! Suc j)) = None"
  proof (intro allI impI)
    fix j assume j: "j < n"
    then have "j < key_queue_length ?s0" using n(1) by simp
    from nth[OF this] have q: "pending ?s0 ! j = pending s ! Suc j" .
    from n(3) j have "lookupQukey_p1 E ((?f ^^ j) ?s0) (QueueItem.addr (pending ?s0 ! j)) = None"
      by blast
    then show "lookupQukey_p1 E ((?f ^^ Suc j) s) (QueueItem.addr (pending s ! Suc j)) = None"
      unfolding sw q .
  qed
  have a2: "Suc n = length (pending s) \<or>
      lookupQukey_p1 E ?u (QueueItem.addr (pending s ! Suc n)) \<noteq> None"
  proof (cases "n = key_queue_length ?s0")
    case True
    then show ?thesis using l0 pos len by simp
  next
    case False
    then have "n < key_queue_length ?s0" using n(1) by simp
    from nth[OF this] have q: "pending ?s0 ! n = pending s ! Suc n" .
    from n(4) False have "lookupQukey_p1 E ((?f ^^ n) ?s0) (QueueItem.addr (pending ?s0 ! n)) \<noteq> None"
      by blast
    then show ?thesis unfolding sw q by blast
  qed
  have a3: "effects (enqueue_p1 E a s) = effects ?u @ [maskKey a]"
    unfolding e by simp
  have a4: "qukey_state_p1 (enqueue_p1 E a s) = qukey_state_p1 ?u"
    unfolding e by simp
  have a5: "pending (enqueue_p1 E a s) = drop (Suc n) (pending s) @
       [\<lparr>QueueItem.addr = a, flush_time = millis E (effects ?u) + ucast (time_limit s)\<rparr>]"
    unfolding e using pending_append(1)[OF oku lt] fp by (simp del: funpow.simps)
  have a6: "flush_calls_p1 (enqueue_p1 E a s) = flush_calls_p1 s @
       map (\<lambda>q. \<lparr>fc_item = q, fc_role = QUKEY_STATE_PRIMARY_p1,
                    fc_keyswitch = IS_PRESSED OR WAS_PRESSED\<rparr>) (take (Suc n) (pending s))"
    unfolding e using flushKey_p1_funpow_calls[OF assms(1) le, of E QUKEY_STATE_PRIMARY_p1
        "IS_PRESSED OR WAS_PRESSED"]
    by (simp del: funpow.simps)
  show ?thesis
    using nl a1 a2 a3 a4 a5 a6 by blast
qed








section \<open>The small keyboard, evaluated\<close>

lemma demo_lookupQukey_34:
  "lookupQukey (demo_env now) (demo_Qukeys q n st) 34 = None"
  "lookupQukey_p1 (demo_env now) (demo_Qukeys_p1 q n b) 34 = None"
  by (simp_all add: lookupQukey_def lookupQukey_p1_def lookupQukey_from.simps
      lookupQukey_from_p1.simps qukeys_count_def qukeys_count_p1_def demo_Qukeys_def
      demo_Qukeys_p1_def demo_qukeys_def QUKEY_UNKNOWN_ADDR_def)

lemma upt_0_2: "[0..<2] = [0, Suc 0]"
  by code_simp

lemma searchQueue_demo:
  "searchQueue (demo_Qukeys [queue_item 34 1100, queue_item 33 1150] 2 st) 33 = Some 1"
  "searchQueue (demo_Qukeys_p1 [queue_item 34 1100, queue_item 33 1150] 2 b) 33 = Some 1"
  by (simp_all add: searchQueue_def searchQueue_from.simps demo_Qukeys_def demo_Qukeys_p1_def
      slot_def queue_item_def)

lemma queue_ok_demo:
  "queue_ok (demo_Qukeys [a, b] n st) \<longleftrightarrow> n \<le> 2"
  "queue_ok (demo_Qukeys_p1 [a, b] n st') \<longleftrightarrow> n \<le> 2"
  by (auto simp: queue_ok_def QUKEYS_QUEUE_MAX_def demo_Qukeys_def demo_Qukeys_p1_def)

lemma pending_demo:
  "pending (demo_Qukeys [a, b] 2 st) = [a, b]"
  "pending (demo_Qukeys_p1 [a, b] 2 st') = [a, b]"
  "pending (demo_Qukeys [a, b] (Suc 0) st) = [a]"
  "pending (demo_Qukeys_p1 [a, b] (Suc 0) st') = [a]"
  "pending (demo_Qukeys [a, b] 0 st) = []"
  "pending (demo_Qukeys_p1 [a, b] 0 st') = []"
  by (simp_all add: pending_def demo_Qukeys_def demo_Qukeys_p1_def numeral_2_eq_2)

lemma demo_fields [simp]:
  "active (demo_Qukeys q n st)" "active (demo_Qukeys_p1 q n b)"
  "flush_calls (demo_Qukeys q n st) = []" "flush_calls_p1 (demo_Qukeys_p1 q n b) = []"
  "effects (demo_Qukeys q n st) = []" "effects (demo_Qukeys_p1 q n b) = []"
  "time_limit (demo_Qukeys q n st) = 200" "time_limit (demo_Qukeys_p1 q n b) = 200"
  "key_queue_length (demo_Qukeys q n st) = n" "key_queue_length (demo_Qukeys_p1 q n b) = n"
  "key_queue (demo_Qukeys q n st) = q" "key_queue (demo_Qukeys_p1 q n b) = q"
  by (simp_all add: demo_Qukeys_def demo_Qukeys_p1_def)



lemma keyswitch_bits:
  "WAS_PRESSED AND INJECTED = 0" "IS_PRESSED AND INJECTED = 0"
  "(IS_PRESSED OR WAS_PRESSED) AND INJECTED = 0"
  "keyToggledOff WAS_PRESSED" "keyToggledOn IS_PRESSED"
  "keyIsPressed (IS_PRESSED OR WAS_PRESSED)" "keyWasPressed (IS_PRESSED OR WAS_PRESSED)"
  "\<not> keyToggledOn (IS_PRESSED OR WAS_PRESSED)" "\<not> keyToggledOff (IS_PRESSED OR WAS_PRESSED)"
  "\<not> keyToggledOn WAS_PRESSED" "\<not> keyToggledOff IS_PRESSED"
  "\<not> keyToggledOff (IS_PRESSED OR WAS_PRESSED OR INJECTED)"
  "\<not> keyToggledOff (IS_PRESSED OR INJECTED)"
  by (simp_all add: keyToggledOff_def keyToggledOn_def keyIsPressed_def keyWasPressed_def
      IS_PRESSED_def WAS_PRESSED_def INJECTED_def)

section \<open>The claims\<close>

subsection \<open>C1: The timeout sweep\<close>




subsection \<open>C2: Release of a queued key\<close>

text \<open>
  C2. A release (toggled off, not injected, plugin active) of a key found in the queue at
  \<open>index\<close>: the hook hands the release on with its mapped code and runs
  \<^verbatim>\<open>flushQueue(index)\<close>, which is \<^verbatim>\<open>flushKey\<close> with the alternate role and the
  pressed-and-held condition \<open>index\<close> times, then once with the primary role and the
  press-plus-release condition. Call \<open>n\<close> resolves entry \<open>n\<close> of the queue as it was,
  oldest first, and the entries up to \<open>index\<close> leave the queue. For an entry before
  \<open>index\<close> the code injected is the alternate code if the key is a registered qukey, whose
  stored resolution becomes alternate, and the code of the keymap if it is not. For the
  released key the code injected is the code of the keymap; if it is a registered qukey,
  \<^verbatim>\<open>Qukeys.cpp\<close> leaves its state undetermined (primary is stored and reset at the end of
  \<^verbatim>\<open>flushKey\<close>, the key being released) and the second file stores primary. In the second
  file the key is unmasked first and each call ends with the held event that C8 is about.
  In both files.
\<close>

theorem release_of_queued_key_flushes_up_to_it:
  assumes "key_state AND INJECTED = 0" and "keyToggledOff key_state"
    and "active s" and "queue_ok s" and "searchQueue s (addr_addr E row col) = Some index"
    and "active s'" and "queue_ok s'" and "searchQueue s' key_addr = Some index'"
  shows "keyScanHook E mapped_key row col key_state s
           = (mapped_key, flushQueue E (Some index) s) \<and>
         flushQueue E (Some index) s
           = flushKey E QUKEY_STATE_PRIMARY WAS_PRESSED
               ((flushKey E QUKEY_STATE_ALTERNATE (IS_PRESSED OR WAS_PRESSED) ^^ index) s) \<and>
         (\<forall>n<index.
            let v = (flushKey E QUKEY_STATE_ALTERNATE (IS_PRESSED OR WAS_PRESSED) ^^ n) s;
                a = QueueItem.addr (pending s ! n)
            in hd (pending v) = pending s ! n \<and>
               effects (flushKey E QUKEY_STATE_ALTERNATE (IS_PRESSED OR WAS_PRESSED) v) =
                 effects v @
                 [save_keyReport, load_lastKeyReport,
                  handleKeyswitchEvent_rc
                    (case lookupQukey E v a of
                       None \<Rightarrow> Layer_lookup_rc E (effects v) (addr_row E a) (addr_col E a)
                     | Some i \<Rightarrow> alt_keycode (qukeys v ! i))
                    (addr_row E a) (addr_col E a) (IS_PRESSED OR INJECTED),
                  sendKeyboardReport, restore_keyReport] \<and>
               qukeys (flushKey E QUKEY_STATE_ALTERNATE (IS_PRESSED OR WAS_PRESSED) v) =
                 (case lookupQukey E v a of
                    None \<Rightarrow> qukeys v
                  | Some i \<Rightarrow> (qukeys v)[i := (qukeys v ! i)\<lparr>state := QUKEY_STATE_ALTERNATE\<rparr>])) \<and>
         (let v = (flushKey E QUKEY_STATE_ALTERNATE (IS_PRESSED OR WAS_PRESSED) ^^ index) s;
              a = addr_addr E row col
          in hd (pending v) = pending s ! index \<and>
             QueueItem.addr (pending s ! index) = a \<and>
             effects (flushQueue E (Some index) s) =
               effects v @
               [save_keyReport, load_lastKeyReport,
                handleKeyswitchEvent_rc
                  (Layer_lookup_rc E (effects v) (addr_row E a) (addr_col E a))
                  (addr_row E a) (addr_col E a) (IS_PRESSED OR INJECTED),
                sendKeyboardReport, restore_keyReport] \<and>
             qukeys (flushQueue E (Some index) s) =
               (case lookupQukey E v a of
                  None \<Rightarrow> qukeys v
                | Some i \<Rightarrow> (qukeys v)[i := (qukeys v ! i)\<lparr>state := QUKEY_STATE_UNDETERMINED\<rparr>])) \<and>
         pending (flushQueue E (Some index) s) = drop (Suc index) (pending s) \<and>
         flush_calls (flushQueue E (Some index) s) = flush_calls s @
           map (\<lambda>q. \<lparr>fc_item = q, fc_role = QUKEY_STATE_ALTERNATE,
                        fc_keyswitch = IS_PRESSED OR WAS_PRESSED\<rparr>) (take index (pending s)) @
           [\<lparr>fc_item = pending s ! index, fc_role = QUKEY_STATE_PRIMARY,
             fc_keyswitch = WAS_PRESSED\<rparr>] \<and>
         eventHandlerHook E mapped_key key_state key_addr s'
           = (True, mapped_key, flushQueue_p1 E (Some index') s') \<and>
         flushQueue_p1 E (Some index') s'
           = flushKey_p1 E QUKEY_STATE_PRIMARY_p1 WAS_PRESSED
               ((flushKey_p1 E QUKEY_STATE_ALTERNATE_p1 (IS_PRESSED OR WAS_PRESSED) ^^ index') s') \<and>
         (\<forall>n<index'.
            let v = (flushKey_p1 E QUKEY_STATE_ALTERNATE_p1 (IS_PRESSED OR WAS_PRESSED) ^^ n) s';
                a = QueueItem.addr (pending s' ! n);
                w = effects v @ [unMaskKey a];
                keycode = (case lookupQukey_p1 E (v\<lparr>effects := w\<rparr>) a of
                             None \<Rightarrow> Layer_lookup E w a
                           | Some i \<Rightarrow> alt_keycode (qukeys_p1 v ! i))
            in hd (pending v) = pending s' ! n \<and>
               effects (flushKey_p1 E QUKEY_STATE_ALTERNATE_p1 (IS_PRESSED OR WAS_PRESSED) v) =
                 w @ [save_keyReport, load_lastKeyReport,
                      handleKeyswitchEvent keycode a (IS_PRESSED OR INJECTED),
                      sendKeyboardReport, restore_keyReport,
                      handleKeyswitchEvent keycode a (IS_PRESSED OR WAS_PRESSED OR INJECTED)] \<and>
               qukey_state_p1 (flushKey_p1 E QUKEY_STATE_ALTERNATE_p1 (IS_PRESSED OR WAS_PRESSED) v) =
                 (case lookupQukey_p1 E (v\<lparr>effects := w\<rparr>) a of
                    None \<Rightarrow> qukey_state_p1 v
                  | Some i \<Rightarrow> (qukey_state_p1 v)(a := QUKEY_STATE_ALTERNATE_p1))) \<and>
         (let v = (flushKey_p1 E QUKEY_STATE_ALTERNATE_p1 (IS_PRESSED OR WAS_PRESSED) ^^ index') s';
              w = effects v @ [unMaskKey key_addr]
          in hd (pending v) = pending s' ! index' \<and>
             QueueItem.addr (pending s' ! index') = key_addr \<and>
             effects (flushQueue_p1 E (Some index') s') =
               w @ [save_keyReport, load_lastKeyReport,
                    handleKeyswitchEvent (Layer_lookup E w key_addr) key_addr
                      (IS_PRESSED OR INJECTED),
                    sendKeyboardReport, restore_keyReport,
                    handleKeyswitchEvent (Layer_lookup E w key_addr) key_addr
                      (IS_PRESSED OR WAS_PRESSED OR INJECTED)] \<and>
             qukey_state_p1 (flushQueue_p1 E (Some index') s') =
               (case lookupQukey_p1 E (v\<lparr>effects := w\<rparr>) key_addr of
                  None \<Rightarrow> qukey_state_p1 v
                | Some i \<Rightarrow> (qukey_state_p1 v)(key_addr := QUKEY_STATE_PRIMARY_p1))) \<and>
         pending (flushQueue_p1 E (Some index') s') = drop (Suc index') (pending s') \<and>
         flush_calls_p1 (flushQueue_p1 E (Some index') s') = flush_calls_p1 s' @
           map (\<lambda>q. \<lparr>fc_item = q, fc_role = QUKEY_STATE_ALTERNATE_p1,
                        fc_keyswitch = IS_PRESSED OR WAS_PRESSED\<rparr>) (take index' (pending s')) @
           [\<lparr>fc_item = pending s' ! index', fc_role = QUKEY_STATE_PRIMARY_p1,
             fc_keyswitch = WAS_PRESSED\<rparr>]"
proof -
  let ?f = "flushKey E QUKEY_STATE_ALTERNATE (IS_PRESSED OR WAS_PRESSED)"
  let ?g = "flushKey_p1 E QUKEY_STATE_ALTERNATE_p1 (IS_PRESSED OR WAS_PRESSED)"
  have off: "\<not> keyToggledOn key_state" "keyWasPressed key_state"
    using assms(2) by (simp_all add: keyToggledOn_def keyToggledOff_def)
  note sk = searchQueue_Some[OF assms(4,5)]
  note sp = searchQueue_Some[OF assms(7,8)]
  have lk: "index < length (pending s)" using sk(1) assms(4) by (simp add: pending_length)
  have lp: "index' < length (pending s')" using sp(1) assms(7) by (simp add: pending_length)
  have k1: "keyScanHook E mapped_key row col key_state s = (mapped_key, flushQueue E (Some index) s)"
    using assms(1-3,5) off by (simp add: keyScanHook_def Let_def)
  have k2: "flushQueue E (Some index) s = flushKey E QUKEY_STATE_PRIMARY WAS_PRESSED ((?f ^^ index) s)"
    using sk(1) by (simp add: flushQueue_def flushQueue_loop_funpow)
  have k3: "\<forall>n<index.
            let v = (?f ^^ n) s; a = QueueItem.addr (pending s ! n)
            in hd (pending v) = pending s ! n \<and>
               effects (?f v) =
                 effects v @
                 [save_keyReport, load_lastKeyReport,
                  handleKeyswitchEvent_rc
                    (case lookupQukey E v a of
                       None \<Rightarrow> Layer_lookup_rc E (effects v) (addr_row E a) (addr_col E a)
                     | Some i \<Rightarrow> alt_keycode (qukeys v ! i))
                    (addr_row E a) (addr_col E a) (IS_PRESSED OR INJECTED),
                  sendKeyboardReport, restore_keyReport] \<and>
               qukeys (?f v) =
                 (case lookupQukey E v a of
                    None \<Rightarrow> qukeys v
                  | Some i \<Rightarrow> (qukeys v)[i := (qukeys v ! i)\<lparr>state := QUKEY_STATE_ALTERNATE\<rparr>])"
  proof (intro allI impI)
    fix n assume n: "n < index"
    let ?v = "(?f ^^ n) s"
    have le: "n \<le> key_queue_length s" using n sk(1) by simp
    note fp = flushKey_funpow[OF assms(4) le, of E QUKEY_STATE_ALTERNATE "IS_PRESSED OR WAS_PRESSED"]
    have ok: "queue_ok ?v" and pos: "0 < key_queue_length ?v" using fp n sk(1) by simp_all
    have hd: "hd (pending ?v) = pending s ! n"
      using fp n lk by (intro hd_pending_funpow) simp_all
    show "let v = ?v; a = QueueItem.addr (pending s ! n)
            in hd (pending v) = pending s ! n \<and>
               effects (?f v) =
                 effects v @
                 [save_keyReport, load_lastKeyReport,
                  handleKeyswitchEvent_rc
                    (case lookupQukey E v a of
                       None \<Rightarrow> Layer_lookup_rc E (effects v) (addr_row E a) (addr_col E a)
                     | Some i \<Rightarrow> alt_keycode (qukeys v ! i))
                    (addr_row E a) (addr_col E a) (IS_PRESSED OR INJECTED),
                  sendKeyboardReport, restore_keyReport] \<and>
               qukeys (?f v) =
                 (case lookupQukey E v a of
                    None \<Rightarrow> qukeys v
                  | Some i \<Rightarrow> (qukeys v)[i := (qukeys v ! i)\<lparr>state := QUKEY_STATE_ALTERNATE\<rparr>])"
      unfolding Let_def flushKey_alternate_held[OF ok pos] hd
      by (intro conjI refl)
  qed
  have k4: "let v = (?f ^^ index) s; a = addr_addr E row col
          in hd (pending v) = pending s ! index \<and>
             QueueItem.addr (pending s ! index) = a \<and>
             effects (flushQueue E (Some index) s) =
               effects v @
               [save_keyReport, load_lastKeyReport,
                handleKeyswitchEvent_rc
                  (Layer_lookup_rc E (effects v) (addr_row E a) (addr_col E a))
                  (addr_row E a) (addr_col E a) (IS_PRESSED OR INJECTED),
                sendKeyboardReport, restore_keyReport] \<and>
             qukeys (flushQueue E (Some index) s) =
               (case lookupQukey E v a of
                  None \<Rightarrow> qukeys v
                | Some i \<Rightarrow> (qukeys v)[i := (qukeys v ! i)\<lparr>state := QUKEY_STATE_UNDETERMINED\<rparr>])"
  proof -
    let ?v = "(?f ^^ index) s"
    have le: "index \<le> key_queue_length s" using sk(1) by simp
    note fp = flushKey_funpow[OF assms(4) le, of E QUKEY_STATE_ALTERNATE "IS_PRESSED OR WAS_PRESSED"]
    have ok: "queue_ok ?v" and pos: "0 < key_queue_length ?v" using fp sk(1) by simp_all
    have hd: "hd (pending ?v) = pending s ! index"
      using fp lk by (intro hd_pending_funpow) simp_all
    show ?thesis
      unfolding Let_def k2 flushKey_primary[OF ok pos] hd sk(2)
      by (intro conjI refl)
  qed
  have p1: "eventHandlerHook E mapped_key key_state key_addr s'
           = (True, mapped_key, flushQueue_p1 E (Some index') s')"
    using assms(1,2,6,8) off by (simp add: eventHandlerHook_def Let_def)
  have p2: "flushQueue_p1 E (Some index') s'
           = flushKey_p1 E QUKEY_STATE_PRIMARY_p1 WAS_PRESSED ((?g ^^ index') s')"
    using sp(1) by (simp add: flushQueue_p1_def flushQueue_loop_p1_funpow)
  have p3: "\<forall>n<index'.
            let v = (?g ^^ n) s';
                a = QueueItem.addr (pending s' ! n);
                w = effects v @ [unMaskKey a];
                keycode = (case lookupQukey_p1 E (v\<lparr>effects := w\<rparr>) a of
                             None \<Rightarrow> Layer_lookup E w a
                           | Some i \<Rightarrow> alt_keycode (qukeys_p1 v ! i))
            in hd (pending v) = pending s' ! n \<and>
               effects (?g v) =
                 w @ [save_keyReport, load_lastKeyReport,
                      handleKeyswitchEvent keycode a (IS_PRESSED OR INJECTED),
                      sendKeyboardReport, restore_keyReport,
                      handleKeyswitchEvent keycode a (IS_PRESSED OR WAS_PRESSED OR INJECTED)] \<and>
               qukey_state_p1 (?g v) =
                 (case lookupQukey_p1 E (v\<lparr>effects := w\<rparr>) a of
                    None \<Rightarrow> qukey_state_p1 v
                  | Some i \<Rightarrow> (qukey_state_p1 v)(a := QUKEY_STATE_ALTERNATE_p1))"
  proof (intro allI impI)
    fix n assume n: "n < index'"
    let ?v = "(?g ^^ n) s'"
    have le: "n \<le> key_queue_length s'" using n sp(1) by simp
    note fp = flushKey_p1_funpow[OF assms(7) le, of E QUKEY_STATE_ALTERNATE_p1 "IS_PRESSED OR WAS_PRESSED"]
    have ok: "queue_ok ?v" and pos: "0 < key_queue_length ?v" using fp n sp(1) by simp_all
    have hd: "hd (pending ?v) = pending s' ! n"
      using fp n lp by (intro hd_pending_funpow) simp_all
    show "let v = ?v;
                a = QueueItem.addr (pending s' ! n);
                w = effects v @ [unMaskKey a];
                keycode = (case lookupQukey_p1 E (v\<lparr>effects := w\<rparr>) a of
                             None \<Rightarrow> Layer_lookup E w a
                           | Some i \<Rightarrow> alt_keycode (qukeys_p1 v ! i))
            in hd (pending v) = pending s' ! n \<and>
               effects (?g v) =
                 w @ [save_keyReport, load_lastKeyReport,
                      handleKeyswitchEvent keycode a (IS_PRESSED OR INJECTED),
                      sendKeyboardReport, restore_keyReport,
                      handleKeyswitchEvent keycode a (IS_PRESSED OR WAS_PRESSED OR INJECTED)] \<and>
               qukey_state_p1 (?g v) =
                 (case lookupQukey_p1 E (v\<lparr>effects := w\<rparr>) a of
                    None \<Rightarrow> qukey_state_p1 v
                  | Some i \<Rightarrow> (qukey_state_p1 v)(a := QUKEY_STATE_ALTERNATE_p1))"
      unfolding Let_def flushKey_p1_not_toggled_on[OF ok pos keyswitch_bits(8)]
        flushKey_p1_resolves(2)[OF ok pos] hd
      by (simp split: option.splits)
  qed
  have p4: "let v = (?g ^^ index') s';
              w = effects v @ [unMaskKey key_addr]
          in hd (pending v) = pending s' ! index' \<and>
             QueueItem.addr (pending s' ! index') = key_addr \<and>
             effects (flushQueue_p1 E (Some index') s') =
               w @ [save_keyReport, load_lastKeyReport,
                    handleKeyswitchEvent (Layer_lookup E w key_addr) key_addr
                      (IS_PRESSED OR INJECTED),
                    sendKeyboardReport, restore_keyReport,
                    handleKeyswitchEvent (Layer_lookup E w key_addr) key_addr
                      (IS_PRESSED OR WAS_PRESSED OR INJECTED)] \<and>
             qukey_state_p1 (flushQueue_p1 E (Some index') s') =
               (case lookupQukey_p1 E (v\<lparr>effects := w\<rparr>) key_addr of
                  None \<Rightarrow> qukey_state_p1 v
                | Some i \<Rightarrow> (qukey_state_p1 v)(key_addr := QUKEY_STATE_PRIMARY_p1))"
  proof -
    let ?v = "(?g ^^ index') s'"
    have le: "index' \<le> key_queue_length s'" using sp(1) by simp
    note fp = flushKey_p1_funpow[OF assms(7) le, of E QUKEY_STATE_ALTERNATE_p1 "IS_PRESSED OR WAS_PRESSED"]
    have ok: "queue_ok ?v" and pos: "0 < key_queue_length ?v" using fp sp(1) by simp_all
    have hd: "hd (pending ?v) = pending s' ! index'"
      using fp lp by (intro hd_pending_funpow) simp_all
    show ?thesis
      unfolding Let_def p2 flushKey_p1_not_toggled_on[OF ok pos keyswitch_bits(10)]
        flushKey_p1_resolves(2)[OF ok pos] hd sp(2)
      by (simp add: QUKEY_STATE_PRIMARY_p1_def QUKEY_STATE_ALTERNATE_p1_def
            split: option.splits)
  qed
  note k5 = flushQueue_run(2)[OF assms(4) sk(1), of E]
  note k6 = flushQueue_run(3)[OF assms(4) sk(1), of E]
  note p5 = flushQueue_p1_run(2)[OF assms(7) sp(1), of E]
  note p6 = flushQueue_p1_run(3)[OF assms(7) sp(1), of E]
  show ?thesis
    by (intro conjI k1 k2 k3 k4 k5 k6 p1 p2 p3 p4 p5 p6)
qed

theorem release_of_queued_key_flushes_up_to_it_witness:
  "WAS_PRESSED AND INJECTED = 0 \<and> keyToggledOff WAS_PRESSED \<and>
   active (demo_Qukeys [queue_item 33 1100, queue_item 34 1150] 2 QUKEY_STATE_UNDETERMINED) \<and>
   queue_ok (demo_Qukeys [queue_item 33 1100, queue_item 34 1150] 2 QUKEY_STATE_UNDETERMINED) \<and>
   searchQueue (demo_Qukeys [queue_item 33 1100, queue_item 34 1150] 2 QUKEY_STATE_UNDETERMINED)
     (addr_addr (demo_env 1200) 2 2) = Some 1 \<and>
   active (demo_Qukeys_p1 [queue_item 33 1100, queue_item 34 1150] 2 False) \<and>
   queue_ok (demo_Qukeys_p1 [queue_item 33 1100, queue_item 34 1150] 2 False) \<and>
   searchQueue (demo_Qukeys_p1 [queue_item 33 1100, queue_item 34 1150] 2 False) 34 = Some 1 \<and>
   fst (keyScanHook (demo_env 1200) 34 2 2 WAS_PRESSED
     (demo_Qukeys [queue_item 33 1100, queue_item 34 1150] 2 QUKEY_STATE_UNDETERMINED)) = 34 \<and>
   effects (snd (keyScanHook (demo_env 1200) 34 2 2 WAS_PRESSED
     (demo_Qukeys [queue_item 33 1100, queue_item 34 1150] 2 QUKEY_STATE_UNDETERMINED))) =
     [save_keyReport, load_lastKeyReport,
      handleKeyswitchEvent_rc 227 2 1 (IS_PRESSED OR INJECTED),
      sendKeyboardReport, restore_keyReport,
      save_keyReport, load_lastKeyReport,
      handleKeyswitchEvent_rc 34 2 2 (IS_PRESSED OR INJECTED),
      sendKeyboardReport, restore_keyReport] \<and>
   map state (qukeys (snd (keyScanHook (demo_env 1200) 34 2 2 WAS_PRESSED
     (demo_Qukeys [queue_item 33 1100, queue_item 34 1150] 2 QUKEY_STATE_UNDETERMINED))))
     = [QUKEY_STATE_ALTERNATE] \<and>
   pending (snd (keyScanHook (demo_env 1200) 34 2 2 WAS_PRESSED
     (demo_Qukeys [queue_item 33 1100, queue_item 34 1150] 2 QUKEY_STATE_UNDETERMINED))) = [] \<and>
   fst (eventHandlerHook (demo_env 1200) 34 WAS_PRESSED 34
     (demo_Qukeys_p1 [queue_item 33 1100, queue_item 34 1150] 2 False)) \<and>
   fst (snd (eventHandlerHook (demo_env 1200) 34 WAS_PRESSED 34
     (demo_Qukeys_p1 [queue_item 33 1100, queue_item 34 1150] 2 False))) = 34 \<and>
   effects (snd (snd (eventHandlerHook (demo_env 1200) 34 WAS_PRESSED 34
     (demo_Qukeys_p1 [queue_item 33 1100, queue_item 34 1150] 2 False)))) =
     [unMaskKey 33, save_keyReport, load_lastKeyReport,
      handleKeyswitchEvent 227 33 (IS_PRESSED OR INJECTED),
      sendKeyboardReport, restore_keyReport,
      handleKeyswitchEvent 227 33 (IS_PRESSED OR WAS_PRESSED OR INJECTED),
      unMaskKey 34, save_keyReport, load_lastKeyReport,
      handleKeyswitchEvent 34 34 (IS_PRESSED OR INJECTED),
      sendKeyboardReport, restore_keyReport,
      handleKeyswitchEvent 34 34 (IS_PRESSED OR WAS_PRESSED OR INJECTED)] \<and>
   getQukeyState 33 (snd (snd (eventHandlerHook (demo_env 1200) 34 WAS_PRESSED 34
     (demo_Qukeys_p1 [queue_item 33 1100, queue_item 34 1150] 2 False))))
     = QUKEY_STATE_ALTERNATE_p1 \<and>
   pending (snd (snd (eventHandlerHook (demo_env 1200) 34 WAS_PRESSED 34
     (demo_Qukeys_p1 [queue_item 33 1100, queue_item 34 1150] 2 False)))) = []"
proof -
  let ?E = "demo_env 1200"
  let ?s = "demo_Qukeys [queue_item 33 1100, queue_item 34 1150] 2 QUKEY_STATE_UNDETERMINED"
  let ?s' = "demo_Qukeys_p1 [queue_item 33 1100, queue_item 34 1150] 2 False"
  let ?f = "flushKey ?E QUKEY_STATE_ALTERNATE (IS_PRESSED OR WAS_PRESSED)"
  let ?g = "flushKey_p1 ?E QUKEY_STATE_ALTERNATE_p1 (IS_PRESSED OR WAS_PRESSED)"
  have a: "WAS_PRESSED AND INJECTED = 0" and b: "keyToggledOff WAS_PRESSED"
    by (rule keyswitch_bits)+
  have c: "active ?s" and f: "active ?s'" by simp_all
  have d: "queue_ok ?s" and g: "queue_ok ?s'" by (simp_all add: queue_ok_demo)
  have e: "searchQueue ?s (addr_addr ?E 2 2) = Some 1" by code_simp
  have h: "searchQueue ?s' 34 = Some 1" by code_simp
  note t = release_of_queued_key_flushes_up_to_it[OF a b c d e f g h, where mapped_key = 34]
  have k1: "keyScanHook ?E 34 2 2 WAS_PRESSED ?s = (34, flushQueue ?E (Some 1) ?s)"
    using t by blast
  have p1: "eventHandlerHook ?E 34 WAS_PRESSED 34 ?s' = (True, 34, flushQueue_p1 ?E (Some 1) ?s')"
    using t by blast
  have k2: "effects (flushQueue ?E (Some 1) ?s) =
     [save_keyReport, load_lastKeyReport,
      handleKeyswitchEvent_rc 227 2 1 (IS_PRESSED OR INJECTED),
      sendKeyboardReport, restore_keyReport,
      save_keyReport, load_lastKeyReport,
      handleKeyswitchEvent_rc 34 2 2 (IS_PRESSED OR INJECTED),
      sendKeyboardReport, restore_keyReport]"
    by code_simp
  have k3: "map state (qukeys (flushQueue ?E (Some 1) ?s)) = [QUKEY_STATE_ALTERNATE]"
    by code_simp
  have "pending (flushQueue ?E (Some 1) ?s) = drop (Suc 1) (pending ?s)"
    using t by blast
  then have k4: "pending (flushQueue ?E (Some 1) ?s) = []"
    by (simp add: pending_demo)
  have p2: "effects (flushQueue_p1 ?E (Some 1) ?s') =
     [unMaskKey 33, save_keyReport, load_lastKeyReport,
      handleKeyswitchEvent 227 33 (IS_PRESSED OR INJECTED),
      sendKeyboardReport, restore_keyReport,
      handleKeyswitchEvent 227 33 (IS_PRESSED OR WAS_PRESSED OR INJECTED),
      unMaskKey 34, save_keyReport, load_lastKeyReport,
      handleKeyswitchEvent 34 34 (IS_PRESSED OR INJECTED),
      sendKeyboardReport, restore_keyReport,
      handleKeyswitchEvent 34 34 (IS_PRESSED OR WAS_PRESSED OR INJECTED)]"
    by code_simp
  have p3: "getQukeyState 33 (flushQueue_p1 ?E (Some 1) ?s') = QUKEY_STATE_ALTERNATE_p1"
    by code_simp
  have "pending (flushQueue_p1 ?E (Some 1) ?s') = drop (Suc 1) (pending ?s')"
    using t by blast
  then have p4: "pending (flushQueue_p1 ?E (Some 1) ?s') = []"
    by (simp add: pending_demo)
  show ?thesis
    unfolding k1 p1 fst_conv snd_conv
    by (intro conjI a b c d e f g h k2 k3 k4 p2 p3 p4 refl TrueI)
qed

subsection \<open>C3: Enqueuing on a full queue\<close>

text \<open>
  C3, as amended. When the queue is full, \<^verbatim>\<open>enqueue\<close> first calls \<^verbatim>\<open>flushKey\<close> on the
  oldest entry with the primary role and the pressed-and-held condition: the code of the
  keymap is injected, and primary is stored if the key is a registered qukey. In
  \<^verbatim>\<open>Qukeys.cpp\<close> that entry alone is flushed. In the file of \<^verbatim>\<open>eventHandlerHook\<close>
  \<^verbatim>\<open>enqueue\<close> goes on with \<^verbatim>\<open>flushQueue()\<close>, which flushes in the same way, in queue
  order, the \<open>n\<close> entries that follow the head and are no registered qukeys, and stops
  at the first registered qukey or on the empty queue. Only then the new entry is
  appended behind what is left, with the clock read after the flushing, and in the second
  file the new key is masked. After \<^verbatim>\<open>enqueue\<close>, after either hook and after either
  sweep the length is at most the capacity, which never changes.
\<close>

theorem full_queue_is_flushed_from_the_head_before_appending:
  assumes "queue_ok s" and "key_queue_length s = QUKEYS_QUEUE_MAX s"
    and "queue_ok s'" and "key_queue_length s' = QUKEYS_QUEUE_MAX s'"
    and "queue_ok u" and "queue_ok u'"
  shows "(let h = QueueItem.addr (hd (pending s)) in
          effects (enqueue E a s) =
            effects s @
            [save_keyReport, load_lastKeyReport,
             handleKeyswitchEvent_rc
               (Layer_lookup_rc E (effects s) (addr_row E h) (addr_col E h))
               (addr_row E h) (addr_col E h) (IS_PRESSED OR INJECTED),
             sendKeyboardReport, restore_keyReport] \<and>
          qukeys (enqueue E a s) =
            (case lookupQukey E s h of
               None \<Rightarrow> qukeys s
             | Some i \<Rightarrow> (qukeys s)[i := (qukeys s ! i)\<lparr>state := QUKEY_STATE_PRIMARY\<rparr>]) \<and>
          pending (enqueue E a s) = tl (pending s) @
            [\<lparr>QueueItem.addr = a,
              flush_time = millis E (effects (enqueue E a s)) + ucast (time_limit s)\<rparr>] \<and>
          flush_calls (enqueue E a s) = flush_calls s @
            [\<lparr>fc_item = hd (pending s), fc_role = QUKEY_STATE_PRIMARY,
              fc_keyswitch = IS_PRESSED OR WAS_PRESSED\<rparr>]) \<and>
         (\<exists>n<length (pending s').
            let f = flushKey_p1 E QUKEY_STATE_PRIMARY_p1 (IS_PRESSED OR WAS_PRESSED);
                r = (f ^^ Suc n) s'
            in (\<forall>j<n. lookupQukey_p1 E ((f ^^ Suc j) s')
                         (QueueItem.addr (pending s' ! Suc j)) = None) \<and>
               (Suc n = length (pending s') \<or>
                lookupQukey_p1 E r (QueueItem.addr (pending s' ! Suc n)) \<noteq> None) \<and>
               (\<forall>j\<le>n.
                  let v = (f ^^ j) s';
                      h = QueueItem.addr (pending s' ! j);
                      w = effects v @ [unMaskKey h]
                  in hd (pending v) = pending s' ! j \<and>
                     effects (f v) =
                       w @ [save_keyReport, load_lastKeyReport,
                            handleKeyswitchEvent (Layer_lookup E w h) h (IS_PRESSED OR INJECTED),
                            sendKeyboardReport, restore_keyReport,
                            handleKeyswitchEvent (Layer_lookup E w h) h
                              (IS_PRESSED OR WAS_PRESSED OR INJECTED)] \<and>
                     qukey_state_p1 (f v) =
                       (case lookupQukey_p1 E (v\<lparr>effects := w\<rparr>) h of
                          None \<Rightarrow> qukey_state_p1 v
                        | Some i \<Rightarrow> (qukey_state_p1 v)(h := QUKEY_STATE_PRIMARY_p1))) \<and>
               effects (enqueue_p1 E a s') = effects r @ [maskKey a] \<and>
               qukey_state_p1 (enqueue_p1 E a s') = qukey_state_p1 r \<and>
               pending (enqueue_p1 E a s') = drop (Suc n) (pending s') @
                 [\<lparr>QueueItem.addr = a,
                   flush_time = millis E (effects r) + ucast (time_limit s')\<rparr>] \<and>
               flush_calls_p1 (enqueue_p1 E a s') = flush_calls_p1 s' @
                 map (\<lambda>q. \<lparr>fc_item = q, fc_role = QUKEY_STATE_PRIMARY_p1,
                              fc_keyswitch = IS_PRESSED OR WAS_PRESSED\<rparr>)
                   (take (Suc n) (pending s'))) \<and>
         key_queue_length (enqueue E a u) \<le> QUKEYS_QUEUE_MAX u \<and>
         key_queue_length (snd (keyScanHook E mapped_key row col key_state u)) \<le> QUKEYS_QUEUE_MAX u \<and>
         key_queue_length (preReportHook E u) \<le> QUKEYS_QUEUE_MAX u \<and>
         key_queue_length (enqueue_p1 E a u') \<le> QUKEYS_QUEUE_MAX u' \<and>
         key_queue_length (snd (snd (eventHandlerHook E mapped_key key_state key_addr u')))
           \<le> QUKEYS_QUEUE_MAX u' \<and>
         key_queue_length (preReportHook_p1 E u') \<le> QUKEYS_QUEUE_MAX u'"
proof -
  let ?f = "flushKey_p1 E QUKEY_STATE_PRIMARY_p1 (IS_PRESSED OR WAS_PRESSED)"
  have b1: "key_queue_length (enqueue E a u) \<le> QUKEYS_QUEUE_MAX u"
  proof -
    have "queue_ok (enqueue E a u)"
      using assms(5) enqueue_full(2)[of u E a] enqueue_not_full(2)[of u E a] by blast
    then show ?thesis by (simp add: queue_ok_def)
  qed
  have b2: "key_queue_length (snd (keyScanHook E mapped_key row col key_state u)) \<le> QUKEYS_QUEUE_MAX u"
    using keyScanHook_ok[OF assms(5), of E mapped_key row col key_state]
    by (simp add: queue_ok_def)
  have b3: "key_queue_length (preReportHook E u) \<le> QUKEYS_QUEUE_MAX u"
    using preReportHook_ok[OF assms(5), of E] by (simp add: queue_ok_def preReportHook_def)
  have b4: "key_queue_length (enqueue_p1 E a u') \<le> QUKEYS_QUEUE_MAX u'"
  proof -
    have "queue_ok (enqueue_p1 E a u')"
      using assms(6) enqueue_p1_full(2)[of u' E a] enqueue_p1_not_full(2)[of u' E a] by blast
    then show ?thesis by (simp add: queue_ok_def)
  qed
  have b5: "key_queue_length (snd (snd (eventHandlerHook E mapped_key key_state key_addr u')))
           \<le> QUKEYS_QUEUE_MAX u'"
    using eventHandlerHook_ok[OF assms(6), of E mapped_key key_state key_addr]
    by (simp add: queue_ok_def)
  have b6: "key_queue_length (preReportHook_p1 E u') \<le> QUKEYS_QUEUE_MAX u'"
    using preReportHook_p1_ok[OF assms(6), of E] by (simp add: queue_ok_def preReportHook_p1_def)
  have pos: "0 < key_queue_length s" using assms(1,2) by (simp add: queue_ok_def)
  have k: "let h = QueueItem.addr (hd (pending s)) in
          effects (enqueue E a s) =
            effects s @
            [save_keyReport, load_lastKeyReport,
             handleKeyswitchEvent_rc
               (Layer_lookup_rc E (effects s) (addr_row E h) (addr_col E h))
               (addr_row E h) (addr_col E h) (IS_PRESSED OR INJECTED),
             sendKeyboardReport, restore_keyReport] \<and>
          qukeys (enqueue E a s) =
            (case lookupQukey E s h of
               None \<Rightarrow> qukeys s
             | Some i \<Rightarrow> (qukeys s)[i := (qukeys s ! i)\<lparr>state := QUKEY_STATE_PRIMARY\<rparr>]) \<and>
          pending (enqueue E a s) = tl (pending s) @
            [\<lparr>QueueItem.addr = a,
              flush_time = millis E (effects (enqueue E a s)) + ucast (time_limit s)\<rparr>] \<and>
          flush_calls (enqueue E a s) = flush_calls s @
            [\<lparr>fc_item = hd (pending s), fc_role = QUKEY_STATE_PRIMARY,
              fc_keyswitch = IS_PRESSED OR WAS_PRESSED\<rparr>]"
    unfolding Let_def enqueue_full(1,3)[OF assms(1,2)] enqueue_full_state[OF assms(2)]
      flushKey_primary(1,2)[OF assms(1) pos]
    by (intro conjI refl)
  from enqueue_p1_full_run[OF assms(3,4), of E a] obtain n where n:
    "n < length (pending s')"
    "\<forall>j<n. lookupQukey_p1 E ((?f ^^ Suc j) s') (QueueItem.addr (pending s' ! Suc j)) = None"
    "Suc n = length (pending s') \<or>
      lookupQukey_p1 E ((?f ^^ Suc n) s') (QueueItem.addr (pending s' ! Suc n)) \<noteq> None"
    "effects (enqueue_p1 E a s') = effects ((?f ^^ Suc n) s') @ [maskKey a]"
    "qukey_state_p1 (enqueue_p1 E a s') = qukey_state_p1 ((?f ^^ Suc n) s')"
    "pending (enqueue_p1 E a s') = drop (Suc n) (pending s') @
       [\<lparr>QueueItem.addr = a,
         flush_time = millis E (effects ((?f ^^ Suc n) s')) + ucast (time_limit s')\<rparr>]"
    "flush_calls_p1 (enqueue_p1 E a s') = flush_calls_p1 s' @
       map (\<lambda>q. \<lparr>fc_item = q, fc_role = QUKEY_STATE_PRIMARY_p1,
                    fc_keyswitch = IS_PRESSED OR WAS_PRESSED\<rparr>) (take (Suc n) (pending s'))"
    by blast
  have len: "length (pending s') = key_queue_length s'" using assms(3) by (rule pending_length)
  have rounds: "\<forall>j\<le>n.
                  let v = (?f ^^ j) s';
                      h = QueueItem.addr (pending s' ! j);
                      w = effects v @ [unMaskKey h]
                  in hd (pending v) = pending s' ! j \<and>
                     effects (?f v) =
                       w @ [save_keyReport, load_lastKeyReport,
                            handleKeyswitchEvent (Layer_lookup E w h) h (IS_PRESSED OR INJECTED),
                            sendKeyboardReport, restore_keyReport,
                            handleKeyswitchEvent (Layer_lookup E w h) h
                              (IS_PRESSED OR WAS_PRESSED OR INJECTED)] \<and>
                     qukey_state_p1 (?f v) =
                       (case lookupQukey_p1 E (v\<lparr>effects := w\<rparr>) h of
                          None \<Rightarrow> qukey_state_p1 v
                        | Some i \<Rightarrow> (qukey_state_p1 v)(h := QUKEY_STATE_PRIMARY_p1))"
  proof (intro allI impI)
    fix j assume j: "j \<le> n"
    let ?v = "(?f ^^ j) s'"
    have jl: "j < length (pending s')" using j n(1) by simp
    have le: "j \<le> key_queue_length s'" using jl len by simp
    note fp = flushKey_p1_funpow[OF assms(3) le, of E QUKEY_STATE_PRIMARY_p1 "IS_PRESSED OR WAS_PRESSED"]
    have ok: "queue_ok ?v" and pos: "0 < key_queue_length ?v" using fp jl len by simp_all
    have hd: "hd (pending ?v) = pending s' ! j"
      using fp jl by (intro hd_pending_funpow) simp_all
    show "let v = ?v;
              h = QueueItem.addr (pending s' ! j);
              w = effects v @ [unMaskKey h]
          in hd (pending v) = pending s' ! j \<and>
             effects (?f v) =
               w @ [save_keyReport, load_lastKeyReport,
                    handleKeyswitchEvent (Layer_lookup E w h) h (IS_PRESSED OR INJECTED),
                    sendKeyboardReport, restore_keyReport,
                    handleKeyswitchEvent (Layer_lookup E w h) h
                      (IS_PRESSED OR WAS_PRESSED OR INJECTED)] \<and>
             qukey_state_p1 (?f v) =
               (case lookupQukey_p1 E (v\<lparr>effects := w\<rparr>) h of
                  None \<Rightarrow> qukey_state_p1 v
                | Some i \<Rightarrow> (qukey_state_p1 v)(h := QUKEY_STATE_PRIMARY_p1))"
      unfolding Let_def flushKey_p1_not_toggled_on[OF ok pos keyswitch_bits(8)]
        flushKey_p1_resolves(2)[OF ok pos] hd
      by (simp add: QUKEY_STATE_PRIMARY_p1_def QUKEY_STATE_ALTERNATE_p1_def split: option.splits)
  qed
  have p: "\<exists>n<length (pending s').
            let f = ?f; r = (f ^^ Suc n) s'
            in (\<forall>j<n. lookupQukey_p1 E ((f ^^ Suc j) s')
                         (QueueItem.addr (pending s' ! Suc j)) = None) \<and>
               (Suc n = length (pending s') \<or>
                lookupQukey_p1 E r (QueueItem.addr (pending s' ! Suc n)) \<noteq> None) \<and>
               (\<forall>j\<le>n.
                  let v = (f ^^ j) s';
                      h = QueueItem.addr (pending s' ! j);
                      w = effects v @ [unMaskKey h]
                  in hd (pending v) = pending s' ! j \<and>
                     effects (f v) =
                       w @ [save_keyReport, load_lastKeyReport,
                            handleKeyswitchEvent (Layer_lookup E w h) h (IS_PRESSED OR INJECTED),
                            sendKeyboardReport, restore_keyReport,
                            handleKeyswitchEvent (Layer_lookup E w h) h
                              (IS_PRESSED OR WAS_PRESSED OR INJECTED)] \<and>
                     qukey_state_p1 (f v) =
                       (case lookupQukey_p1 E (v\<lparr>effects := w\<rparr>) h of
                          None \<Rightarrow> qukey_state_p1 v
                        | Some i \<Rightarrow> (qukey_state_p1 v)(h := QUKEY_STATE_PRIMARY_p1))) \<and>
               effects (enqueue_p1 E a s') = effects r @ [maskKey a] \<and>
               qukey_state_p1 (enqueue_p1 E a s') = qukey_state_p1 r \<and>
               pending (enqueue_p1 E a s') = drop (Suc n) (pending s') @
                 [\<lparr>QueueItem.addr = a,
                   flush_time = millis E (effects r) + ucast (time_limit s')\<rparr>] \<and>
               flush_calls_p1 (enqueue_p1 E a s') = flush_calls_p1 s' @
                 map (\<lambda>q. \<lparr>fc_item = q, fc_role = QUKEY_STATE_PRIMARY_p1,
                              fc_keyswitch = IS_PRESSED OR WAS_PRESSED\<rparr>)
                   (take (Suc n) (pending s'))"
    unfolding Let_def
    by (rule exI[of _ n], intro conjI n rounds[unfolded Let_def])
  show ?thesis
    by (intro conjI k p b1 b2 b3 b4 b5 b6)
qed

theorem full_queue_is_flushed_from_the_head_before_appending_witness:
  "queue_ok (demo_Qukeys [queue_item 33 1100, queue_item 35 1150] 2 QUKEY_STATE_UNDETERMINED) \<and>
   key_queue_length (demo_Qukeys [queue_item 33 1100, queue_item 35 1150] 2 QUKEY_STATE_UNDETERMINED)
     = QUKEYS_QUEUE_MAX (demo_Qukeys [queue_item 33 1100, queue_item 35 1150] 2 QUKEY_STATE_UNDETERMINED) \<and>
   queue_ok (demo_Qukeys_p1 [queue_item 33 1100, queue_item 35 1150] 2 True) \<and>
   key_queue_length (demo_Qukeys_p1 [queue_item 33 1100, queue_item 35 1150] 2 True)
     = QUKEYS_QUEUE_MAX (demo_Qukeys_p1 [queue_item 33 1100, queue_item 35 1150] 2 True) \<and>
   effects (enqueue (demo_env 1000) 36
      (demo_Qukeys [queue_item 33 1100, queue_item 35 1150] 2 QUKEY_STATE_UNDETERMINED)) =
     [save_keyReport, load_lastKeyReport,
      handleKeyswitchEvent_rc 33 2 1 (IS_PRESSED OR INJECTED),
      sendKeyboardReport, restore_keyReport] \<and>
   map state (qukeys (enqueue (demo_env 1000) 36
      (demo_Qukeys [queue_item 33 1100, queue_item 35 1150] 2 QUKEY_STATE_UNDETERMINED)))
     = [QUKEY_STATE_PRIMARY] \<and>
   pending (enqueue (demo_env 1000) 36
      (demo_Qukeys [queue_item 33 1100, queue_item 35 1150] 2 QUKEY_STATE_UNDETERMINED)) =
     [queue_item 35 1150, queue_item 36 1200] \<and>
   lookupQukey_p1 (demo_env 1000)
     (flushKey_p1 (demo_env 1000) QUKEY_STATE_PRIMARY_p1 (IS_PRESSED OR WAS_PRESSED)
        (demo_Qukeys_p1 [queue_item 33 1100, queue_item 35 1150] 2 True)) 35 = None \<and>
   effects (enqueue_p1 (demo_env 1000) 36
      (demo_Qukeys_p1 [queue_item 33 1100, queue_item 35 1150] 2 True)) =
     [unMaskKey 33, save_keyReport, load_lastKeyReport,
      handleKeyswitchEvent 33 33 (IS_PRESSED OR INJECTED),
      sendKeyboardReport, restore_keyReport,
      handleKeyswitchEvent 33 33 (IS_PRESSED OR WAS_PRESSED OR INJECTED),
      unMaskKey 35, save_keyReport, load_lastKeyReport,
      handleKeyswitchEvent 35 35 (IS_PRESSED OR INJECTED),
      sendKeyboardReport, restore_keyReport,
      handleKeyswitchEvent 35 35 (IS_PRESSED OR WAS_PRESSED OR INJECTED),
      maskKey 36] \<and>
   getQukeyState 33 (demo_Qukeys_p1 [queue_item 33 1100, queue_item 35 1150] 2 True)
     = QUKEY_STATE_ALTERNATE_p1 \<and>
   getQukeyState 33 (enqueue_p1 (demo_env 1000) 36
      (demo_Qukeys_p1 [queue_item 33 1100, queue_item 35 1150] 2 True))
     = QUKEY_STATE_PRIMARY_p1 \<and>
   pending (enqueue_p1 (demo_env 1000) 36
      (demo_Qukeys_p1 [queue_item 33 1100, queue_item 35 1150] 2 True)) = [queue_item 36 1200] \<and>
   key_queue_length (preReportHook (demo_env 1000)
      (demo_Qukeys [queue_item 33 1100, queue_item 35 1150] 2 QUKEY_STATE_UNDETERMINED)) \<le> 2 \<and>
   key_queue_length (snd (snd (eventHandlerHook (demo_env 1000) 36 IS_PRESSED 36
      (demo_Qukeys_p1 [queue_item 33 1100, queue_item 35 1150] 2 True)))) \<le> 2"
proof -
  let ?E = "demo_env 1000"
  let ?s = "demo_Qukeys [queue_item 33 1100, queue_item 35 1150] 2 QUKEY_STATE_UNDETERMINED"
  let ?s' = "demo_Qukeys_p1 [queue_item 33 1100, queue_item 35 1150] 2 True"
  have a: "queue_ok ?s" and c: "queue_ok ?s'" by (simp_all add: queue_ok_demo)
  have b: "key_queue_length ?s = QUKEYS_QUEUE_MAX ?s"
    and d: "key_queue_length ?s' = QUKEYS_QUEUE_MAX ?s'"
    by (simp_all add: QUKEYS_QUEUE_MAX_def)
  have m: "QUKEYS_QUEUE_MAX ?s = 2" "QUKEYS_QUEUE_MAX ?s' = 2"
    by (simp_all add: QUKEYS_QUEUE_MAX_def)
  note t = full_queue_is_flushed_from_the_head_before_appending[OF a b c d a c,
        where E = ?E and a = 36 and mapped_key = 36 and key_state = IS_PRESSED
          and key_addr = 36, unfolded Let_def]
  have hd: "hd (pending ?s) = queue_item 33 1100" by (simp add: pending_demo)
  have ad: "QueueItem.addr (queue_item 33 1100) = 33" by (simp add: queue_item_def)
  have rc: "addr_row ?E 33 = 2" "addr_col ?E 33 = 1" "Layer_lookup_rc ?E w 2 1 = 33" for w
    by (simp_all add: demo_env_def)
  have "effects (enqueue ?E 36 ?s) =
            effects ?s @
            [save_keyReport, load_lastKeyReport,
             handleKeyswitchEvent_rc
               (Layer_lookup_rc ?E (effects ?s) (addr_row ?E (QueueItem.addr (hd (pending ?s))))
                  (addr_col ?E (QueueItem.addr (hd (pending ?s)))))
               (addr_row ?E (QueueItem.addr (hd (pending ?s))))
               (addr_col ?E (QueueItem.addr (hd (pending ?s)))) (IS_PRESSED OR INJECTED),
             sendKeyboardReport, restore_keyReport]"
    using t by blast
  then have k1: "effects (enqueue ?E 36 ?s) =
     [save_keyReport, load_lastKeyReport,
      handleKeyswitchEvent_rc 33 2 1 (IS_PRESSED OR INJECTED),
      sendKeyboardReport, restore_keyReport]"
    unfolding hd ad rc by simp
  have k2: "map state (qukeys (enqueue ?E 36 ?s)) = [QUKEY_STATE_PRIMARY]"
    by code_simp
  have k3: "pending (enqueue ?E 36 ?s) = [queue_item 35 1150, queue_item 36 1200]"
    by code_simp
  have p0: "lookupQukey_p1 ?E
     (flushKey_p1 ?E QUKEY_STATE_PRIMARY_p1 (IS_PRESSED OR WAS_PRESSED) ?s') 35 = None"
    by code_simp
  have p1: "effects (enqueue_p1 ?E 36 ?s') =
     [unMaskKey 33, save_keyReport, load_lastKeyReport,
      handleKeyswitchEvent 33 33 (IS_PRESSED OR INJECTED),
      sendKeyboardReport, restore_keyReport,
      handleKeyswitchEvent 33 33 (IS_PRESSED OR WAS_PRESSED OR INJECTED),
      unMaskKey 35, save_keyReport, load_lastKeyReport,
      handleKeyswitchEvent 35 35 (IS_PRESSED OR INJECTED),
      sendKeyboardReport, restore_keyReport,
      handleKeyswitchEvent 35 35 (IS_PRESSED OR WAS_PRESSED OR INJECTED),
      maskKey 36]"
    by code_simp
  have p2: "getQukeyState 33 ?s' = QUKEY_STATE_ALTERNATE_p1"
    by code_simp
  have p3: "getQukeyState 33 (enqueue_p1 ?E 36 ?s') = QUKEY_STATE_PRIMARY_p1"
    by code_simp
  have p4: "pending (enqueue_p1 ?E 36 ?s') = [queue_item 36 1200]"
    by code_simp
  have "key_queue_length (preReportHook ?E ?s) \<le> QUKEYS_QUEUE_MAX ?s"
    using t by blast
  then have b3: "key_queue_length (preReportHook ?E ?s) \<le> 2"
    unfolding m .
  have "key_queue_length (snd (snd (eventHandlerHook ?E 36 IS_PRESSED 36 ?s')))
           \<le> QUKEYS_QUEUE_MAX ?s'"
    using t by blast
  then have b5: "key_queue_length (snd (snd (eventHandlerHook ?E 36 IS_PRESSED 36 ?s'))) \<le> 2"
    unfolding m .
  show ?thesis
    by (intro conjI a b c d k1 k2 k3 p0 p1 p2 p3 p4 b3 b5)
qed

theorem full_queue_flushes_two_entries_counterexample:
  "key_queue_length (demo_Qukeys_p1 [queue_item 33 1100, queue_item 35 1150] 2 False)
     = QUKEYS_QUEUE_MAX (demo_Qukeys_p1 [queue_item 33 1100, queue_item 35 1150] 2 False) \<and>
   flush_calls_p1 (demo_Qukeys_p1 [queue_item 33 1100, queue_item 35 1150] 2 False) = [] \<and>
   flush_calls_p1 (enqueue_p1 (demo_env 1000) 36
      (demo_Qukeys_p1 [queue_item 33 1100, queue_item 35 1150] 2 False)) =
     [\<lparr>fc_item = queue_item 33 1100, fc_role = QUKEY_STATE_PRIMARY_p1,
        fc_keyswitch = IS_PRESSED OR WAS_PRESSED\<rparr>,
      \<lparr>fc_item = queue_item 35 1150, fc_role = QUKEY_STATE_PRIMARY_p1,
        fc_keyswitch = IS_PRESSED OR WAS_PRESSED\<rparr>] \<and>
   pending (enqueue_p1 (demo_env 1000) 36
      (demo_Qukeys_p1 [queue_item 33 1100, queue_item 35 1150] 2 False)) = [queue_item 36 1200]"
  by code_simp

subsection \<open>C4: The fast path of a plain key\<close>

text \<open>
  C4. A press that is not injected, of a key that is no registered qukey on the active
  layer, arriving while the queue is empty, is handed on with its mapped code; the state,
  and with it the queue, is unchanged.
\<close>

theorem plain_key_on_empty_queue_passes:
  assumes "key_state AND INJECTED = 0" and "keyToggledOn key_state"
    and "key_queue_length s = 0" and "lookupQukey E s (addr_addr E row col) = None"
    and "key_queue_length s' = 0" and "lookupQukey_p1 E s' key_addr = None"
  shows "keyScanHook E mapped_key row col key_state s = (mapped_key, s) \<and>
         eventHandlerHook E mapped_key key_state key_addr s' = (True, mapped_key, s')"
  using assms by (simp add: keyScanHook_def eventHandlerHook_def Let_def)

theorem plain_key_on_empty_queue_passes_witness:
  "IS_PRESSED AND INJECTED = 0 \<and> keyToggledOn IS_PRESSED \<and>
   key_queue_length (demo_Qukeys [queue_item 0 0, queue_item 0 0] 0 QUKEY_STATE_UNDETERMINED) = 0 \<and>
   lookupQukey (demo_env 1000) (demo_Qukeys [queue_item 0 0, queue_item 0 0] 0 QUKEY_STATE_UNDETERMINED)
     (addr_addr (demo_env 1000) 2 2) = None \<and>
   key_queue_length (demo_Qukeys_p1 [queue_item 0 0, queue_item 0 0] 0 False) = 0 \<and>
   lookupQukey_p1 (demo_env 1000) (demo_Qukeys_p1 [queue_item 0 0, queue_item 0 0] 0 False) 34 = None \<and>
   keyScanHook (demo_env 1000) 34 2 2 IS_PRESSED
     (demo_Qukeys [queue_item 0 0, queue_item 0 0] 0 QUKEY_STATE_UNDETERMINED)
   = (34, demo_Qukeys [queue_item 0 0, queue_item 0 0] 0 QUKEY_STATE_UNDETERMINED) \<and>
   eventHandlerHook (demo_env 1000) 34 IS_PRESSED 34 (demo_Qukeys_p1 [queue_item 0 0, queue_item 0 0] 0 False)
   = (True, 34, demo_Qukeys_p1 [queue_item 0 0, queue_item 0 0] 0 False)"
proof -
  have a: "IS_PRESSED AND INJECTED = 0" by (simp add: IS_PRESSED_def INJECTED_def)
  have b: "keyToggledOn IS_PRESSED"
    by (simp add: keyToggledOn_def keyIsPressed_def keyWasPressed_def IS_PRESSED_def WAS_PRESSED_def)
  have c: "key_queue_length (demo_Qukeys [queue_item 0 0, queue_item 0 0] 0 QUKEY_STATE_UNDETERMINED) = 0"
    by (simp add: demo_Qukeys_def)
  have ad: "addr_addr (demo_env 1000) 2 2 = 34" by (simp add: demo_env_def)
  have d: "lookupQukey (demo_env 1000) (demo_Qukeys [queue_item 0 0, queue_item 0 0] 0 QUKEY_STATE_UNDETERMINED)
     (addr_addr (demo_env 1000) 2 2) = None"
    unfolding ad by (rule demo_lookupQukey_34)
  have e: "key_queue_length (demo_Qukeys_p1 [queue_item 0 0, queue_item 0 0] 0 False) = 0"
    by (simp add: demo_Qukeys_p1_def)
  have f: "lookupQukey_p1 (demo_env 1000) (demo_Qukeys_p1 [queue_item 0 0, queue_item 0 0] 0 False) 34 = None"
    by (rule demo_lookupQukey_34)
  show ?thesis
    using a b c d e f plain_key_on_empty_queue_passes[OF a b c d e f] by simp
qed

subsection \<open>C5: A press outside the fast path\<close>

text \<open>
  C5. In the file of \<^verbatim>\<open>eventHandlerHook\<close> a press that misses the fast path is
  enqueued and the hook returns \<^verbatim>\<open>false\<close> at once. \<^verbatim>\<open>keyScanHook\<close> enqueues it too, but
  then goes on to the code for keys that are still pressed, which answers a qukey from
  its stored state: the press is suppressed only if that state is undetermined. A state
  left over from an earlier resolution answers the press with a code. The first run of
  the model leaves one: the qukey is pressed on layer 0, times out to its alternate
  code, and is released while another layer is active for it, so that the release does
  not find the qukey and does not reset it. Then it is pressed again on layer 0.
\<close>

theorem stale_state_answers_the_press:
  "pending demo_start = [] \<and> state (qukeys demo_start ! 0) = QUKEY_STATE_UNDETERMINED \<and>
   state (qukeys stale_timeout ! 0) = QUKEY_STATE_ALTERNATE \<and>
   pending stale_release = [] \<and> state (qukeys stale_release ! 0) = QUKEY_STATE_ALTERNATE \<and>
   IS_PRESSED AND INJECTED = 0 \<and> keyToggledOn IS_PRESSED \<and> active stale_release \<and>
   lookupQukey (demo_env_layer 0 2000) stale_release 33 = Some 0 \<and>
   fst (keyScanHook (demo_env_layer 0 2000) 33 2 1 IS_PRESSED stale_release) = 227 \<and>
   Key_NoKey \<noteq> 227 \<and>
   map QueueItem.addr
     (pending (snd (keyScanHook (demo_env_layer 0 2000) 33 2 1 IS_PRESSED stale_release))) = [33]"
  by code_simp

subsection \<open>C6: Injected events\<close>

text \<open>
  C6. An event that carries the injected flag is handed on by the hook of either file with
  the mapped code unchanged, and the whole state of the plugin (queue and length,
  resolution states, the masking recorded among the effects) is the one before the event.
\<close>

theorem injected_event_passes_untouched:
  "key_state AND INJECTED \<noteq> 0 \<Longrightarrow>
   keyScanHook E mapped_key row col key_state s = (mapped_key, s) \<and>
   eventHandlerHook E mapped_key key_state key_addr s' = (True, mapped_key, s')"
  by (simp add: keyScanHook_def eventHandlerHook_def)

theorem injected_event_passes_untouched_witness:
  "(IS_PRESSED OR INJECTED) AND INJECTED \<noteq> 0 \<and>
   keyScanHook (demo_env 1000) 33 2 1 (IS_PRESSED OR INJECTED)
     (demo_Qukeys [queue_item 34 1100, queue_item 0 0] 1 QUKEY_STATE_UNDETERMINED)
   = (33, demo_Qukeys [queue_item 34 1100, queue_item 0 0] 1 QUKEY_STATE_UNDETERMINED) \<and>
   eventHandlerHook (demo_env 1000) 33 (IS_PRESSED OR INJECTED) 33
     (demo_Qukeys_p1 [queue_item 34 1100, queue_item 0 0] 1 False)
   = (True, 33, demo_Qukeys_p1 [queue_item 34 1100, queue_item 0 0] 1 False)"
proof -
  have h: "(IS_PRESSED OR INJECTED) AND INJECTED \<noteq> 0"
    by (simp add: IS_PRESSED_def INJECTED_def)
  show ?thesis
    using h injected_event_passes_untouched[OF h] by simp
qed

subsection \<open>C7: Release of a qukey outside the queue\<close>




subsection \<open>C8: What flush-one injects\<close>

text \<open>
  C8, as amended. \<^verbatim>\<open>flushKey\<close> injects no release in either file: every event it injects
  carries the injected flag and is no toggle-off. \<^verbatim>\<open>Qukeys.cpp\<close> injects the press and
  nothing else, whatever the keyswitch condition. In the file of \<^verbatim>\<open>eventHandlerHook\<close>,
  when the key is still down (the pressed-and-held condition), the press is followed,
  after the report has been sent and the saved report restored, by a second event for
  the same code that is pressed-and-held and injected: it puts the code back into the
  restored report.
\<close>

theorem flush_one_injects_no_release:
  assumes "keyIsPressed keyswitch_state" and "keyWasPressed keyswitch_state"
  shows "effects (flushKey_p1 E qukey_state keyswitch_state s') =
           (let head_addr = QueueItem.addr (slot (key_queue s') (past_key_queue s') 0);
                w = effects s' @ [unMaskKey head_addr];
                qukey_index = lookupQukey_p1 E (s'\<lparr>effects := w\<rparr>) head_addr;
                keycode = (if qukey_state = QUKEY_STATE_ALTERNATE_p1 \<and> qukey_index \<noteq> None
                           then alt_keycode (qukeys_p1 s' ! the qukey_index)
                           else Layer_lookup E w head_addr)
            in w @ [save_keyReport, load_lastKeyReport,
                    handleKeyswitchEvent keycode head_addr (IS_PRESSED OR INJECTED),
                    sendKeyboardReport, restore_keyReport,
                    handleKeyswitchEvent keycode head_addr
                      (IS_PRESSED OR WAS_PRESSED OR INJECTED)]) \<and>
         injected_key_states (drop (length (effects s)) (effects (flushKey E r k s)))
           = [IS_PRESSED OR INJECTED] \<and>
         (\<forall>key_state \<in> set (injected_key_states (drop (length (effects t'))
                                  (effects (flushKey_p1 E r' k' t')))).
            key_state AND INJECTED \<noteq> 0 \<and> keyIsPressed key_state \<and> \<not> keyToggledOff key_state)"
proof -
  have on: "\<not> keyToggledOn keyswitch_state" using assms by (simp add: keyToggledOn_def)
  have p: "effects (flushKey_p1 E qukey_state keyswitch_state s') =
           (let head_addr = QueueItem.addr (slot (key_queue s') (past_key_queue s') 0);
                w = effects s' @ [unMaskKey head_addr];
                qukey_index = lookupQukey_p1 E (s'\<lparr>effects := w\<rparr>) head_addr;
                keycode = (if qukey_state = QUKEY_STATE_ALTERNATE_p1 \<and> qukey_index \<noteq> None
                           then alt_keycode (qukeys_p1 s' ! the qukey_index)
                           else Layer_lookup E w head_addr)
            in w @ [save_keyReport, load_lastKeyReport,
                    handleKeyswitchEvent keycode head_addr (IS_PRESSED OR INJECTED),
                    sendKeyboardReport, restore_keyReport,
                    handleKeyswitchEvent keycode head_addr
                      (IS_PRESSED OR WAS_PRESSED OR INJECTED)])"
    using on by (simp add: flushKey_p1_effects Let_def)
  have k: "injected_key_states (drop (length (effects s)) (effects (flushKey E r k s)))
           = [IS_PRESSED OR INJECTED]"
    by (simp add: flushKey_effects)
  have bits: "(IS_PRESSED OR INJECTED) AND INJECTED \<noteq> 0" "keyIsPressed (IS_PRESSED OR INJECTED)"
    "\<not> keyToggledOff (IS_PRESSED OR INJECTED)"
    "(IS_PRESSED OR WAS_PRESSED OR INJECTED) AND INJECTED \<noteq> 0"
    "keyIsPressed (IS_PRESSED OR WAS_PRESSED OR INJECTED)"
    "\<not> keyToggledOff (IS_PRESSED OR WAS_PRESSED OR INJECTED)"
    by (simp_all add: keyToggledOff_def keyIsPressed_def keyWasPressed_def
        IS_PRESSED_def WAS_PRESSED_def INJECTED_def)
  have u: "\<forall>key_state \<in> set (injected_key_states (drop (length (effects t'))
                                  (effects (flushKey_p1 E r' k' t')))).
            key_state AND INJECTED \<noteq> 0 \<and> keyIsPressed key_state \<and> \<not> keyToggledOff key_state"
    using bits by (simp add: flushKey_p1_effects Let_def)
  show ?thesis using p k u by blast
qed

theorem flush_one_injects_no_release_witness:
  "keyIsPressed (IS_PRESSED OR WAS_PRESSED) \<and> keyWasPressed (IS_PRESSED OR WAS_PRESSED) \<and>
   effects (flushKey_p1 (demo_env 1000) QUKEY_STATE_ALTERNATE_p1 (IS_PRESSED OR WAS_PRESSED)
     (demo_Qukeys_p1 [queue_item 33 900, queue_item 0 0] 1 False)) =
     [unMaskKey 33, save_keyReport, load_lastKeyReport,
      handleKeyswitchEvent 227 33 (IS_PRESSED OR INJECTED),
      sendKeyboardReport, restore_keyReport,
      handleKeyswitchEvent 227 33 (IS_PRESSED OR WAS_PRESSED OR INJECTED)] \<and>
   injected_key_states (effects (flushKey (demo_env 1000) QUKEY_STATE_PRIMARY WAS_PRESSED
     (demo_Qukeys [queue_item 33 900, queue_item 0 0] 1 QUKEY_STATE_UNDETERMINED)))
     = [IS_PRESSED OR INJECTED] \<and>
   list_all (\<lambda>key_state. key_state AND INJECTED \<noteq> 0 \<and> keyIsPressed key_state \<and>
                         \<not> keyToggledOff key_state)
     (injected_key_states
        (effects (flushKey_p1 (demo_env 1000) QUKEY_STATE_PRIMARY_p1 WAS_PRESSED
           (demo_Qukeys_p1 [queue_item 33 900, queue_item 0 0] 1 False))))"
proof -
  let ?s' = "demo_Qukeys_p1 [queue_item 33 900, queue_item 0 0] 1 False"
  let ?s = "demo_Qukeys [queue_item 33 900, queue_item 0 0] 1 QUKEY_STATE_UNDETERMINED"
  have a: "keyIsPressed (IS_PRESSED OR WAS_PRESSED)"
    and b: "keyWasPressed (IS_PRESSED OR WAS_PRESSED)"
    by (rule keyswitch_bits)+
  have l: "lookupQukey_p1 (demo_env 1000) ((demo_Qukeys_p1 q n False)\<lparr>effects := w\<rparr>) 33 = Some 0"
    for w q n
    by (simp add: lookupQukey_p1_def lookupQukey_from_p1.simps qukeys_count_p1_def
        demo_Qukeys_p1_def demo_qukeys_def demo_env_def QUKEY_UNKNOWN_ADDR_def
        QUKEY_ALL_LAYERS_def)
  have h: "QueueItem.addr (slot [queue_item 33 900, queue_item 0 0] past 0) = 33" for past
    by (simp add: slot_def queue_item_def)
  have q: "alt_keycode (qukeys_p1 (demo_Qukeys_p1 q n False) ! 0) = 227" for q n
    by (simp add: demo_Qukeys_p1_def demo_qukeys_def)
  note t = flush_one_injects_no_release[OF a b, where E = "demo_env 1000"
      and qukey_state = QUKEY_STATE_ALTERNATE_p1 and s' = ?s' and s = ?s
      and r = QUKEY_STATE_PRIMARY and k = WAS_PRESSED
      and t' = ?s' and r' = QUKEY_STATE_PRIMARY_p1 and k' = WAS_PRESSED]
  have e1: "effects (flushKey_p1 (demo_env 1000) QUKEY_STATE_ALTERNATE_p1
               (IS_PRESSED OR WAS_PRESSED) ?s') =
     [unMaskKey 33, save_keyReport, load_lastKeyReport,
      handleKeyswitchEvent 227 33 (IS_PRESSED OR INJECTED),
      sendKeyboardReport, restore_keyReport,
      handleKeyswitchEvent 227 33 (IS_PRESSED OR WAS_PRESSED OR INJECTED)]"
    using t by (simp add: Let_def h l q)
  show ?thesis
    using a b e1 t by (simp add: list_all_iff)
qed

theorem flush_one_second_event_is_held_counterexample:
  "\<not> keyToggledOff (IS_PRESSED OR WAS_PRESSED) \<and>
   effects (flushKey_p1 (demo_env 1000) QUKEY_STATE_ALTERNATE_p1 (IS_PRESSED OR WAS_PRESSED)
     (demo_Qukeys_p1 [queue_item 33 900, queue_item 0 0] 1 False)) =
     [unMaskKey 33, save_keyReport, load_lastKeyReport,
      handleKeyswitchEvent 227 33 130, sendKeyboardReport, restore_keyReport,
      handleKeyswitchEvent 227 33 131] \<and>
   keyToggledOff WAS_PRESSED \<and>
   effects (flushKey_p1 (demo_env 1000) QUKEY_STATE_PRIMARY_p1 WAS_PRESSED
     (demo_Qukeys_p1 [queue_item 33 900, queue_item 0 0] 1 False)) =
     [unMaskKey 33, save_keyReport, load_lastKeyReport,
      handleKeyswitchEvent 33 33 130, sendKeyboardReport, restore_keyReport,
      handleKeyswitchEvent 33 33 131] \<and>
   keyIsPressed 131 \<and> \<not> keyToggledOff 131 \<and>
   effects (flushKey (demo_env 1000) QUKEY_STATE_PRIMARY WAS_PRESSED
     (demo_Qukeys [queue_item 33 900, queue_item 0 0] 1 QUKEY_STATE_UNDETERMINED)) =
     [save_keyReport, load_lastKeyReport, handleKeyswitchEvent_rc 33 2 1 130,
      sendKeyboardReport, restore_keyReport]"
  by code_simp

subsection \<open>C9: Order of the deadlines\<close>

text \<open>
  C9. \<^verbatim>\<open>flushKey\<close> removes the head and keeps the order and the deadlines of the rest
  (lemma \<open>flushKey_removes_head_keeps_order\<close>), so entries leave the queue first in,
  first out. The order of the deadlines is not kept by \<^verbatim>\<open>enqueue\<close>: the deadline is
  the clock plus the timeout in 32 bits, and once the clock is within the timeout of
  \<open>2 ^ 32\<close> the sum wraps around. The second run of the model, two presses 100 ms apart,
  the second at 4294967100 ms with a timeout of 200 ms, leaves the deadline 4 queued
  behind the deadline 4294967200, in either file.
\<close>

theorem deadline_wraps_behind_a_later_one:
  "pending demo_start = [] \<and>
   pending wrap_first = [queue_item 33 4294967200] \<and>
   pending wrap_second = [queue_item 33 4294967200, queue_item 34 4] \<and>
   \<not> sorted (map flush_time (pending wrap_second)) \<and>
   pending wrap_start_p1 = [] \<and>
   pending wrap_first_p1 = [queue_item 33 4294967200] \<and>
   pending wrap_second_p1 = [queue_item 33 4294967200, queue_item 34 4] \<and>
   \<not> sorted (map flush_time (pending wrap_second_p1))"
  by code_simp

subsection \<open>C10: Reads of the shifting loop\<close>

text \<open>
  C10. The shifting loop of \<^verbatim>\<open>flushKey\<close> reads slot \<open>i + 1\<close> for every \<open>i\<close> below the
  length, so with the queue at capacity it reads the slot whose index is the capacity,
  behind the array. The overflow path of \<^verbatim>\<open>enqueue\<close> calls \<^verbatim>\<open>flushKey\<close> in exactly
  that state. Here the array has two slots and both are taken, by the qukey and by a
  plain key pressed after it.
\<close>

theorem full_queue_flush_reads_behind_the_array:
  "key_queue_length (demo_Qukeys [queue_item 33 1100, queue_item 35 1150] 2 QUKEY_STATE_UNDETERMINED)
     = QUKEYS_QUEUE_MAX (demo_Qukeys [queue_item 33 1100, queue_item 35 1150] 2 QUKEY_STATE_UNDETERMINED) \<and>
   QUKEYS_QUEUE_MAX (demo_Qukeys [queue_item 33 1100, queue_item 35 1150] 2 QUKEY_STATE_UNDETERMINED) = 2 \<and>
   shift_reads (flushKey (demo_env 1000) QUKEY_STATE_PRIMARY (IS_PRESSED OR WAS_PRESSED)
     (demo_Qukeys [queue_item 33 1100, queue_item 35 1150] 2 QUKEY_STATE_UNDETERMINED)) = [1, 2] \<and>
   shift_reads (enqueue (demo_env 1000) 36
     (demo_Qukeys [queue_item 33 1100, queue_item 35 1150] 2 QUKEY_STATE_UNDETERMINED)) = [1, 2] \<and>
   key_queue_length (demo_Qukeys_p1 [queue_item 33 1100, queue_item 35 1150] 2 False)
     = QUKEYS_QUEUE_MAX (demo_Qukeys_p1 [queue_item 33 1100, queue_item 35 1150] 2 False) \<and>
   QUKEYS_QUEUE_MAX (demo_Qukeys_p1 [queue_item 33 1100, queue_item 35 1150] 2 False) = 2 \<and>
   shift_reads (flushKey_p1 (demo_env 1000) QUKEY_STATE_PRIMARY_p1 (IS_PRESSED OR WAS_PRESSED)
     (demo_Qukeys_p1 [queue_item 33 1100, queue_item 35 1150] 2 False)) = [1, 2]"
  by (simp add: flushKey_reads flushKey_p1_reads enqueue_def Let_def QUKEYS_QUEUE_MAX_def
      demo_Qukeys_def demo_Qukeys_p1_def upt_0_2)

end
